theory Spec2Isabelle
  imports Main "HOL-Library.Word" "HOL-Library.Multiset"
begin

unbundle bit_operations_syntax

section \<open>Doubles\<close>

text \<open>
  The C type \<^verbatim>\<open>double\<close> is an IEEE-754 binary64 value: 64 bits, bit 63 the sign, the
  other 63 bits the magnitude (eleven exponent bits above fifty-two fraction bits).
  The code in \<^verbatim>\<open>_lse.c\<close> stores, moves and compares doubles; a value is modelled by
  its bit pattern, so that moving a value moves exactly its bits.

  Comparison follows IEEE-754: a NaN (magnitude above the pattern of infinity)
  compares false with everything; otherwise the order of the values is the order of
  the sign-magnitude integers, and the two zeros are equal.
\<close>

type_synonym double = "64 word"

definition sign_bit :: "double \<Rightarrow> bool" where
  "sign_bit w = bit w 63"

definition magnitude :: "double \<Rightarrow> nat" where
  "magnitude w = unat (take_bit 63 w)"

definition isnan :: "double \<Rightarrow> bool" where
  "isnan w = (0x7FF0000000000000 < magnitude w)"

definition is_zero :: "double \<Rightarrow> bool" where
  "is_zero w = (magnitude w = 0)"

definition is_finite :: "double \<Rightarrow> bool" where
  "is_finite w = (magnitude w < 0x7FF0000000000000)"

definition dkey :: "double \<Rightarrow> int" where
  "dkey w = (if sign_bit w then - int (magnitude w) else int (magnitude w))"

text \<open>The C operators \<^verbatim>\<open><\<close>, \<^verbatim>\<open>>\<close>, \<^verbatim>\<open><=\<close> and \<^verbatim>\<open>==\<close> on doubles.\<close>

definition dlt :: "double \<Rightarrow> double \<Rightarrow> bool" where
  "dlt a b = (\<not> isnan a \<and> \<not> isnan b \<and> dkey a < dkey b)"

definition dgt :: "double \<Rightarrow> double \<Rightarrow> bool" where
  "dgt a b = dlt b a"

definition dle :: "double \<Rightarrow> double \<Rightarrow> bool" where
  "dle a b = (\<not> isnan a \<and> \<not> isnan b \<and> dkey a \<le> dkey b)"

definition deq :: "double \<Rightarrow> double \<Rightarrow> bool" where
  "deq a b = (\<not> isnan a \<and> \<not> isnan b \<and> dkey a = dkey b)"

text \<open>Constants: \<^verbatim>\<open>0.0\<close>, \<^verbatim>\<open>-0.0\<close>, \<^verbatim>\<open>1.0\<close>, \<^verbatim>\<open>2.0\<close>, \<^verbatim>\<open>5.0\<close>, \<^verbatim>\<open>INFINITY\<close>, \<^verbatim>\<open>-INFINITY\<close>
  and a quiet NaN.\<close>

definition POS_ZERO :: double where "POS_ZERO = 0x0000000000000000"
definition NEG_ZERO :: double where "NEG_ZERO = 0x8000000000000000"
definition ONE :: double where "ONE = 0x3FF0000000000000"
definition TWO :: double where "TWO = 0x4000000000000000"
definition FIVE :: double where "FIVE = 0x4014000000000000"
definition POS_INF :: double where "POS_INF = 0x7FF0000000000000"
definition NEG_INF :: double where "NEG_INF = 0xFFF0000000000000"
definition QNAN :: double where "QNAN = 0x7FF8000000000000"

section \<open>Arrays\<close>

text \<open>
  A C array is a list of doubles; an index is a C \<^verbatim>\<open>int\<close>. A read or a write outside
  the array is undefined behaviour in C and is \<open>None\<close> here, so that a function returns
  \<open>Some\<close> exactly when every access it made was inside the array. Every index the
  functions below compute lies between \<open>L - 1\<close> and \<open>R + 1\<close>, so for a range inside an
  array of fewer than \<open>INT_MAX\<close> elements no \<^verbatim>\<open>int\<close> operation overflows, and indices
  are modelled as \<open>int\<close>. The model \<open>rc_sort_int\<close> further down keeps the \<^verbatim>\<open>int\<close>
  arithmetic, for the ranges where it matters.
\<close>

definition in_bounds :: "double list \<Rightarrow> int \<Rightarrow> bool" where
  "in_bounds arr i = (0 \<le> i \<and> i < int (length arr))"

definition rd :: "double list \<Rightarrow> int \<Rightarrow> double option" where
  "rd arr i = (if in_bounds arr i then Some (arr ! nat i) else None)"

definition wr :: "double list \<Rightarrow> int \<Rightarrow> double \<Rightarrow> double list option" where
  "wr arr i v = (if in_bounds arr i then Some (arr[nat i := v]) else None)"

text \<open>The three statements \<^verbatim>\<open>swap = array[i]; array[i] = array[j]; array[j] = swap;\<close>\<close>

definition swap_elems :: "double list \<Rightarrow> int \<Rightarrow> int \<Rightarrow> double list option" where
  "swap_elems arr i j =
     (case rd arr i of None \<Rightarrow> None | Some swap \<Rightarrow>
      (case rd arr j of None \<Rightarrow> None | Some aj \<Rightarrow>
       (case wr arr i aj of None \<Rightarrow> None | Some arr1 \<Rightarrow>
        wr arr1 j swap)))"

section \<open>rc\_sort\<close>

text \<open>Line 27: \<^verbatim>\<open>while(array[++l] < array[R]);\<close> returns the final \<open>l\<close>.\<close>

function scan_left :: "double list \<Rightarrow> int \<Rightarrow> int \<Rightarrow> int option" where
  "scan_left arr R l =
     (case rd arr (l + 1) of None \<Rightarrow> None | Some x \<Rightarrow>
      (case rd arr R of None \<Rightarrow> None | Some p \<Rightarrow>
       if dlt x p then scan_left arr R (l + 1) else Some (l + 1)))"
  by pat_completeness auto
termination
  by (relation "measure (\<lambda>(arr, R, l). nat (int (length arr) - l))")
     (auto simp: rd_def in_bounds_def split: if_splits)

declare scan_left.simps [simp del]

text \<open>Line 28: \<^verbatim>\<open>while((array[--r] > array[R]) && (r > l));\<close> returns the final \<open>r\<close>.\<close>

function scan_right :: "double list \<Rightarrow> int \<Rightarrow> int \<Rightarrow> int \<Rightarrow> int option" where
  "scan_right arr R l r =
     (case rd arr (r - 1) of None \<Rightarrow> None | Some x \<Rightarrow>
      (case rd arr R of None \<Rightarrow> None | Some p \<Rightarrow>
       if dgt x p \<and> r - 1 > l then scan_right arr R l (r - 1) else Some (r - 1)))"
  by pat_completeness auto
termination
  by (relation "measure (\<lambda>(arr, R, l, r). nat r)")
     (auto simp: rd_def in_bounds_def split: if_splits)

declare scan_right.simps [simp del]

lemma scan_right_less: "scan_right arr R l r = Some r' \<Longrightarrow> 0 \<le> r' \<and> r' < r"
proof (induction arr R l r rule: scan_right.induct)
  case (1 arr R l r)
  note step = scan_right.simps [of arr R l r]
  show ?case
  proof (cases "rd arr (r - 1)")
    case None
    with "1.prems" step show ?thesis by simp
  next
    case (Some x)
    then have b: "0 \<le> r - 1" by (simp add: rd_def in_bounds_def split: if_splits)
    show ?thesis
    proof (cases "rd arr R")
      case None
      with \<open>rd arr (r - 1) = Some x\<close> "1.prems" step show ?thesis by simp
    next
      case (Some p)
      show ?thesis
      proof (cases "dgt x p \<and> r - 1 > l")
        case True
        with \<open>rd arr (r - 1) = Some x\<close> Some "1.prems" step
        have "scan_right arr R l (r - 1) = Some r'" by simp
        with "1.IH" [OF \<open>rd arr (r - 1) = Some x\<close> Some True] show ?thesis by simp
      next
        case False
        with \<open>rd arr (r - 1) = Some x\<close> Some "1.prems" b step show ?thesis by auto
      qed
    qed
  qed
qed

text \<open>Lines 25--33: the \<^verbatim>\<open>for(;;)\<close> loop; returns the array and the final \<open>l\<close>.\<close>

function part_loop :: "double list \<Rightarrow> int \<Rightarrow> int \<Rightarrow> int \<Rightarrow> (double list \<times> int) option" where
  "part_loop arr R l r =
     (case scan_left arr R l of None \<Rightarrow> None | Some l' \<Rightarrow>
      (case scan_right arr R l' r of None \<Rightarrow> None | Some r' \<Rightarrow>
       if l' \<ge> r' then Some (arr, l')
       else (case swap_elems arr l' r' of None \<Rightarrow> None | Some arr' \<Rightarrow>
             part_loop arr' R l' r')))"
  by pat_completeness auto
termination
  by (relation "measure (\<lambda>(arr, R, l, r). nat r)")
     (auto dest: scan_right_less)

declare part_loop.simps [simp del]

text \<open>Lines 23--36: the partition step of the quicksort branch, up to the swap that
  puts the pivot at \<open>l\<close>; returns the array and \<open>l\<close>.\<close>

definition qs_partition :: "double list \<Rightarrow> int \<Rightarrow> int \<Rightarrow> (double list \<times> int) option" where
  "qs_partition arr L R =
     (case part_loop arr R (L - 1) R of None \<Rightarrow> None | Some (arr1, l) \<Rightarrow>
      (case swap_elems arr1 l R of None \<Rightarrow> None | Some arr2 \<Rightarrow> Some (arr2, l)))"

text \<open>Lines 45--46: the inner loop of the insertion sort; returns the array and the
  final \<open>r\<close>.\<close>

function ins_shift :: "double list \<Rightarrow> int \<Rightarrow> double \<Rightarrow> int \<Rightarrow> (double list \<times> int) option" where
  "ins_shift arr L swap r =
     (if r \<ge> L then
        (case rd arr r of None \<Rightarrow> None | Some x \<Rightarrow>
         if dlt swap x then
           (case wr arr (r + 1) x of None \<Rightarrow> None | Some arr' \<Rightarrow>
            ins_shift arr' L swap (r - 1))
         else Some (arr, r))
      else Some (arr, r))"
  by pat_completeness auto
termination
  by (relation "measure (\<lambda>(arr, L, swap, r). nat (r - L + 1))") auto

declare ins_shift.simps [simp del]

text \<open>Lines 42--48: the outer loop of the insertion sort, from \<open>l\<close> on.\<close>

function ins_loop :: "double list \<Rightarrow> int \<Rightarrow> int \<Rightarrow> int \<Rightarrow> double list option" where
  "ins_loop arr L R l =
     (if l \<le> R then
        (case rd arr l of None \<Rightarrow> None | Some swap \<Rightarrow>
         (case ins_shift arr L swap (l - 1) of None \<Rightarrow> None | Some (arr1, r) \<Rightarrow>
          (case wr arr1 (r + 1) swap of None \<Rightarrow> None | Some arr2 \<Rightarrow>
           ins_loop arr2 L R (l + 1))))
      else Some arr)"
  by pat_completeness auto
termination
  by (relation "measure (\<lambda>(arr, L, R, l). nat (R + 1 - l))") auto

declare ins_loop.simps [simp del]

text \<open>The partition leaves \<open>l\<close> inside the range: both recursive calls are on
  shorter ranges.\<close>

lemma scan_left_bounds: "scan_left arr R l = Some l' \<Longrightarrow> l < R \<Longrightarrow> l < l' \<and> l' \<le> R"
proof (induction arr R l rule: scan_left.induct)
  case (1 arr R l)
  note step = scan_left.simps [of arr R l]
  from "1.prems" step obtain x p where x: "rd arr (l + 1) = Some x" and p: "rd arr R = Some p"
    by (auto split: option.splits)
  show ?case
  proof (cases "dlt x p")
    case True
    with x p "1.prems" step have rec: "scan_left arr R (l + 1) = Some l'" by simp
    have "l + 1 \<noteq> R" using True x p by (auto simp: dlt_def)
    with "1.prems" have "l + 1 < R" by simp
    with "1.IH" [OF x p True rec] show ?thesis by simp
  next
    case False
    with x p "1.prems" step show ?thesis by auto
  qed
qed

lemma part_loop_bounds:
  "part_loop arr R l r = Some (arr', l') \<Longrightarrow> l < R \<Longrightarrow> r \<le> R \<Longrightarrow> l < l' \<and> l' \<le> R"
proof (induction arr R l r arbitrary: arr' l' rule: part_loop.induct)
  case (1 arr R l r)
  note step = part_loop.simps [of arr R l r]
  from "1.prems"(1) step obtain l1 r1 where l1: "scan_left arr R l = Some l1"
    and r1: "scan_right arr R l1 r = Some r1"
    by (auto split: option.splits)
  from scan_left_bounds [OF l1 "1.prems"(2)] have lb: "l < l1" "l1 \<le> R" by auto
  from scan_right_less [OF r1] have rb: "0 \<le> r1" "r1 < r" by auto
  show ?case
  proof (cases "l1 \<ge> r1")
    case True
    with l1 r1 "1.prems"(1) step lb show ?thesis by auto
  next
    case False
    with l1 r1 "1.prems"(1) step obtain a1 where sw: "swap_elems arr l1 r1 = Some a1"
      and rec: "part_loop a1 R l1 r1 = Some (arr', l')"
      by (auto split: option.splits)
    have "l1 < R" "r1 \<le> R" using False rb "1.prems"(3) by auto
    with "1.IH" [OF l1 r1 False sw rec] lb show ?thesis by auto
  qed
qed

lemma qs_partition_bounds:
  "qs_partition arr L R = Some (arr', l) \<Longrightarrow> L \<le> R \<Longrightarrow> L \<le> l \<and> l \<le> R"
  using part_loop_bounds [of arr R "L - 1" R]
  by (auto simp: qs_partition_def split: option.splits)

text \<open>Lines 17--50: \<^verbatim>\<open>rc_sort\<close>. The array is changed in place, so the model returns it.\<close>

function rc_sort :: "double list \<Rightarrow> int \<Rightarrow> int \<Rightarrow> double list option" where
  "rc_sort arr L R =
     (if R - L > 25 then
        (case qs_partition arr L R of None \<Rightarrow> None | Some (arr2, l) \<Rightarrow>
         (case rc_sort arr2 L (l - 1) of None \<Rightarrow> None | Some arr3 \<Rightarrow>
          rc_sort arr3 (l + 1) R))
      else ins_loop arr L R (L + 1))"
  by pat_completeness auto
termination
proof (relation "measure (\<lambda>(arr, L, R). nat (R - L))")
  show "wf (measure (\<lambda>(arr, L, R). nat (R - L)))" by simp
next
  fix arr :: "double list" and L R :: int and x2 arr2 l
  assume "25 < R - L" "qs_partition arr L R = Some x2" "(arr2, l) = x2"
  then have "qs_partition arr L R = Some (arr2, l)" "L \<le> R" by auto
  from qs_partition_bounds [OF this] \<open>25 < R - L\<close>
  show "((arr2, L, l - 1), arr, L, R) \<in> measure (\<lambda>(arr, L, R). nat (R - L))" by simp
next
  fix arr :: "double list" and L R :: int and x2 arr2 l arr3
  assume "25 < R - L" "qs_partition arr L R = Some x2" "(arr2, l) = x2"
  then have "qs_partition arr L R = Some (arr2, l)" "L \<le> R" by auto
  from qs_partition_bounds [OF this] \<open>25 < R - L\<close>
  show "((arr3, l + 1, R), arr, L, R) \<in> measure (\<lambda>(arr, L, R). nat (R - L))" by simp
qed

declare rc_sort.simps [simp del]


section \<open>rc\_sort with the arithmetic of int\<close>

text \<open>
  \<open>rc_sort\<close> above computes with mathematical integers. The C function computes with
  \<^verbatim>\<open>int\<close>, 32 bits wide: an operation whose result is not representable is undefined
  behaviour. \<open>rc_sort_int\<close> is the same function with every \<^verbatim>\<open>int\<close> operation of lines
  17--50 checked: it ends in the fault \<open>SignedOverflow\<close> at the first operation that
  overflows and in \<open>OutOfBounds\<close> at the first access outside the array. The two
  models agree on every range inside an array of fewer than \<open>INT_MAX\<close> elements (lemmas
  \<open>rc_sort_int_Inr\<close> and \<open>rc_sort_int_Some\<close>).
\<close>

datatype fault = OutOfBounds | SignedOverflow

definition INT_MIN :: int where "INT_MIN = - 2147483648"
definition INT_MAX :: int where "INT_MAX = 2147483647"

definition int_ok :: "int \<Rightarrow> bool" where
  "int_ok i = (INT_MIN \<le> i \<and> i \<le> INT_MAX)"

text \<open>The result of an \<^verbatim>\<open>int\<close> operation whose mathematical value is \<open>i\<close>.\<close>

definition ck :: "int \<Rightarrow> fault + int" where
  "ck i = (if int_ok i then Inr i else Inl SignedOverflow)"

definition rd_c :: "double list \<Rightarrow> int \<Rightarrow> fault + double" where
  "rd_c arr i = (if in_bounds arr i then Inr (arr ! nat i) else Inl OutOfBounds)"

definition wr_c :: "double list \<Rightarrow> int \<Rightarrow> double \<Rightarrow> fault + double list" where
  "wr_c arr i v = (if in_bounds arr i then Inr (arr[nat i := v]) else Inl OutOfBounds)"

definition swap_elems_c :: "double list \<Rightarrow> int \<Rightarrow> int \<Rightarrow> fault + double list" where
  "swap_elems_c arr i j =
     (case rd_c arr i of Inl e \<Rightarrow> Inl e | Inr swap \<Rightarrow>
      (case rd_c arr j of Inl e \<Rightarrow> Inl e | Inr aj \<Rightarrow>
       (case wr_c arr i aj of Inl e \<Rightarrow> Inl e | Inr arr1 \<Rightarrow>
        wr_c arr1 j swap)))"

text \<open>Line 27, with \<^verbatim>\<open>++l\<close> checked.\<close>

function scan_left_c :: "double list \<Rightarrow> int \<Rightarrow> int \<Rightarrow> fault + int" where
  "scan_left_c arr R l =
     (case ck (l + 1) of Inl e \<Rightarrow> Inl e | Inr l' \<Rightarrow>
      (case rd_c arr l' of Inl e \<Rightarrow> Inl e | Inr x \<Rightarrow>
       (case rd_c arr R of Inl e \<Rightarrow> Inl e | Inr p \<Rightarrow>
        if dlt x p then scan_left_c arr R l' else Inr l')))"
  by pat_completeness auto
termination
  by (relation "measure (\<lambda>(arr, R, l). nat (int (length arr) - l))")
     (auto simp: ck_def rd_c_def in_bounds_def split: if_splits)

declare scan_left_c.simps [simp del]

text \<open>Line 28, with \<^verbatim>\<open>--r\<close> checked.\<close>

function scan_right_c :: "double list \<Rightarrow> int \<Rightarrow> int \<Rightarrow> int \<Rightarrow> fault + int" where
  "scan_right_c arr R l r =
     (case ck (r - 1) of Inl e \<Rightarrow> Inl e | Inr r' \<Rightarrow>
      (case rd_c arr r' of Inl e \<Rightarrow> Inl e | Inr x \<Rightarrow>
       (case rd_c arr R of Inl e \<Rightarrow> Inl e | Inr p \<Rightarrow>
        if dgt x p \<and> r' > l then scan_right_c arr R l r' else Inr r')))"
  by pat_completeness auto
termination
  by (relation "measure (\<lambda>(arr, R, l, r). nat r)")
     (auto simp: ck_def rd_c_def in_bounds_def split: if_splits)

declare scan_right_c.simps [simp del]

lemma ck_Inr: "ck i = Inr j \<Longrightarrow> j = i \<and> int_ok i"
  by (simp add: ck_def split: if_splits)

lemma ck_Inr_iff: "ck i = Inr j \<longleftrightarrow> j = i \<and> int_ok i"
  by (auto simp: ck_def)

lemma ck_ok: "int_ok i \<Longrightarrow> ck i = Inr i"
  by (simp add: ck_def)

lemma rd_c_Inr: "rd_c arr i = Inr x \<Longrightarrow> rd arr i = Some x"
  by (simp add: rd_c_def rd_def split: if_splits)

lemma wr_c_Inr: "wr_c arr i v = Inr a \<Longrightarrow> wr arr i v = Some a"
  by (simp add: wr_c_def wr_def split: if_splits)

lemma swap_elems_c_Inr: "swap_elems_c arr i j = Inr a \<Longrightarrow> swap_elems arr i j = Some a"
  by (auto simp: swap_elems_c_def swap_elems_def split: sum.splits dest!: rd_c_Inr wr_c_Inr)

lemma scan_left_c_Inr: "scan_left_c arr R l = Inr l' \<Longrightarrow> scan_left arr R l = Some l'"
proof (induction arr R l rule: scan_left_c.induct)
  case (1 arr R l)
  from "1.prems" scan_left_c.simps [of arr R l] obtain x p where
    c: "ck (l + 1) = Inr (l + 1)" and x: "rd_c arr (l + 1) = Inr x" and p: "rd_c arr R = Inr p"
    and r: "(if dlt x p then scan_left_c arr R (l + 1) else Inr (l + 1)) = Inr l'"
    by (auto split: sum.splits dest: ck_Inr)
  show ?case
  proof (cases "dlt x p")
    case True
    with r "1.IH" [OF c x p True] have "scan_left arr R (l + 1) = Some l'" by simp
    with True rd_c_Inr [OF x] rd_c_Inr [OF p] show ?thesis
      by (simp add: scan_left.simps [of arr R l])
  next
    case False
    with r rd_c_Inr [OF x] rd_c_Inr [OF p] show ?thesis
      by (simp add: scan_left.simps [of arr R l])
  qed
qed

lemma scan_right_c_Inr: "scan_right_c arr R l r = Inr r' \<Longrightarrow> scan_right arr R l r = Some r'"
proof (induction arr R l r rule: scan_right_c.induct)
  case (1 arr R l r)
  from "1.prems" scan_right_c.simps [of arr R l r] obtain x p where
    c: "ck (r - 1) = Inr (r - 1)" and x: "rd_c arr (r - 1) = Inr x" and p: "rd_c arr R = Inr p"
    and res: "(if dgt x p \<and> r - 1 > l then scan_right_c arr R l (r - 1) else Inr (r - 1)) = Inr r'"
    by (auto split: sum.splits dest: ck_Inr)
  show ?case
  proof (cases "dgt x p \<and> r - 1 > l")
    case True
    with res "1.IH" [OF c x p True] have "scan_right arr R l (r - 1) = Some r'" by simp
    with True rd_c_Inr [OF x] rd_c_Inr [OF p] show ?thesis
      by (simp add: scan_right.simps [of arr R l r])
  next
    case False
    with res rd_c_Inr [OF x] rd_c_Inr [OF p] show ?thesis
      by (auto simp: scan_right.simps [of arr R l r])
  qed
qed

text \<open>Lines 25--33.\<close>

function part_loop_c :: "double list \<Rightarrow> int \<Rightarrow> int \<Rightarrow> int \<Rightarrow> fault + (double list \<times> int)" where
  "part_loop_c arr R l r =
     (case scan_left_c arr R l of Inl e \<Rightarrow> Inl e | Inr l' \<Rightarrow>
      (case scan_right_c arr R l' r of Inl e \<Rightarrow> Inl e | Inr r' \<Rightarrow>
       if l' \<ge> r' then Inr (arr, l')
       else (case swap_elems_c arr l' r' of Inl e \<Rightarrow> Inl e | Inr arr' \<Rightarrow>
             part_loop_c arr' R l' r')))"
  by pat_completeness auto
termination
  by (relation "measure (\<lambda>(arr, R, l, r). nat r)")
     (auto dest!: scan_right_c_Inr dest: scan_right_less)

declare part_loop_c.simps [simp del]


lemma part_loop_c_Inr:
  "part_loop_c arr R l r = Inr y \<Longrightarrow> part_loop arr R l r = Some y"
proof (induction arr R l r rule: part_loop_c.induct)
  case (1 arr R l r)
  from "1.prems" part_loop_c.simps [of arr R l r] obtain l1 r1 where
    l1: "scan_left_c arr R l = Inr l1" and r1: "scan_right_c arr R l1 r = Inr r1"
    and res: "(if l1 \<ge> r1 then Inr (arr, l1)
               else (case swap_elems_c arr l1 r1 of Inl e \<Rightarrow> Inl e
                     | Inr arr' \<Rightarrow> part_loop_c arr' R l1 r1)) = Inr y"
    by (auto split: sum.splits)
  note sl = scan_left_c_Inr [OF l1] and sr = scan_right_c_Inr [OF r1]
  show ?case
  proof (cases "l1 \<ge> r1")
    case True
    with res sl sr show ?thesis by (simp add: part_loop.simps [of arr R l r])
  next
    case False
    with res obtain a1 where sw: "swap_elems_c arr l1 r1 = Inr a1"
      and rec: "part_loop_c a1 R l1 r1 = Inr y"
      by (auto split: sum.splits)
    from "1.IH" [OF l1 r1 False sw rec] False sl sr swap_elems_c_Inr [OF sw]
    show ?thesis by (simp add: part_loop.simps [of arr R l r])
  qed
qed

text \<open>Lines 23--36, with \<^verbatim>\<open>l = L - 1\<close> checked.\<close>

definition qs_partition_c :: "double list \<Rightarrow> int \<Rightarrow> int \<Rightarrow> fault + (double list \<times> int)" where
  "qs_partition_c arr L R =
     (case ck (L - 1) of Inl e \<Rightarrow> Inl e | Inr l0 \<Rightarrow>
      (case part_loop_c arr R l0 R of Inl e \<Rightarrow> Inl e | Inr (arr1, l) \<Rightarrow>
       (case swap_elems_c arr1 l R of Inl e \<Rightarrow> Inl e | Inr arr2 \<Rightarrow> Inr (arr2, l))))"

lemma qs_partition_c_Inr:
  "qs_partition_c arr L R = Inr y \<Longrightarrow> qs_partition arr L R = Some y"
  by (auto simp: qs_partition_c_def qs_partition_def split: sum.splits prod.splits
      dest!: ck_Inr part_loop_c_Inr swap_elems_c_Inr)

text \<open>Lines 45--46, with \<^verbatim>\<open>r + 1\<close> and \<^verbatim>\<open>--r\<close> checked.\<close>

function ins_shift_c :: "double list \<Rightarrow> int \<Rightarrow> double \<Rightarrow> int \<Rightarrow> fault + (double list \<times> int)" where
  "ins_shift_c arr L swap r =
     (if r \<ge> L then
        (case rd_c arr r of Inl e \<Rightarrow> Inl e | Inr x \<Rightarrow>
         if dlt swap x then
           (case ck (r + 1) of Inl e \<Rightarrow> Inl e | Inr i \<Rightarrow>
            (case wr_c arr i x of Inl e \<Rightarrow> Inl e | Inr arr' \<Rightarrow>
             (case ck (r - 1) of Inl e \<Rightarrow> Inl e | Inr r' \<Rightarrow>
              ins_shift_c arr' L swap r')))
         else Inr (arr, r))
      else Inr (arr, r))"
  by pat_completeness auto
termination
  by (relation "measure (\<lambda>(arr, L, swap, r). nat (r - L + 1))")
     (auto dest!: ck_Inr)

declare ins_shift_c.simps [simp del]

lemma ins_shift_c_Inr:
  "ins_shift_c arr L swap r = Inr y \<Longrightarrow> ins_shift arr L swap r = Some y"
proof (induction arr L swap r rule: ins_shift_c.induct)
  case (1 arr L swap r)
  note step = ins_shift_c.simps [of arr L swap r] and ustep = ins_shift.simps [of arr L swap r]
  show ?case
  proof (cases "r \<ge> L")
    case False
    with "1.prems" step ustep show ?thesis by simp
  next
    case True
    with "1.prems" step obtain x where x: "rd_c arr r = Inr x" by (auto split: sum.splits)
    show ?thesis
    proof (cases "dlt swap x")
      case False
      with True x "1.prems" step ustep rd_c_Inr [OF x] show ?thesis by simp
    next
      case d: True
      with True x "1.prems" step obtain a1 where
        k1: "int_ok (r + 1)" and w: "wr_c arr (r + 1) x = Inr a1"
        and k2: "int_ok (r - 1)" and rec: "ins_shift_c a1 L swap (r - 1) = Inr y"
        by (auto simp: ck_Inr_iff split: sum.splits)
      note c1 = ck_ok [OF k1] and c2 = ck_ok [OF k2]
      from "1.IH" [OF True x d c1 w c2 rec] True d rd_c_Inr [OF x] wr_c_Inr [OF w] ustep
      show ?thesis by simp
    qed
  qed
qed

text \<open>Lines 42--48, with \<^verbatim>\<open>r = l - 1\<close>, \<^verbatim>\<open>r + 1\<close> and \<^verbatim>\<open>++l\<close> checked.\<close>

function ins_loop_c :: "double list \<Rightarrow> int \<Rightarrow> int \<Rightarrow> int \<Rightarrow> fault + double list" where
  "ins_loop_c arr L R l =
     (if l \<le> R then
        (case rd_c arr l of Inl e \<Rightarrow> Inl e | Inr swap \<Rightarrow>
         (case ck (l - 1) of Inl e \<Rightarrow> Inl e | Inr r0 \<Rightarrow>
          (case ins_shift_c arr L swap r0 of Inl e \<Rightarrow> Inl e | Inr (arr1, r) \<Rightarrow>
           (case ck (r + 1) of Inl e \<Rightarrow> Inl e | Inr i \<Rightarrow>
            (case wr_c arr1 i swap of Inl e \<Rightarrow> Inl e | Inr arr2 \<Rightarrow>
             (case ck (l + 1) of Inl e \<Rightarrow> Inl e | Inr l' \<Rightarrow>
              ins_loop_c arr2 L R l'))))))
      else Inr arr)"
  by pat_completeness auto
termination
  by (relation "measure (\<lambda>(arr, L, R, l). nat (R + 1 - l))")
     (auto dest!: ck_Inr)

declare ins_loop_c.simps [simp del]

lemma ins_loop_c_Inr:
  "ins_loop_c arr L R l = Inr y \<Longrightarrow> ins_loop arr L R l = Some y"
proof (induction arr L R l rule: ins_loop_c.induct)
  case (1 arr L R l)
  note step = ins_loop_c.simps [of arr L R l] and ustep = ins_loop.simps [of arr L R l]
  show ?case
  proof (cases "l \<le> R")
    case False
    with "1.prems" step ustep show ?thesis by simp
  next
    case True
    with "1.prems" step obtain swap a1 r a2 where
      x: "rd_c arr l = Inr swap" and k0: "int_ok (l - 1)"
      and sh: "ins_shift_c arr L swap (l - 1) = Inr (a1, r)"
      and k1: "int_ok (r + 1)" and w: "wr_c a1 (r + 1) swap = Inr a2"
      and k2: "int_ok (l + 1)" and rec: "ins_loop_c a2 L R (l + 1) = Inr y"
      by (auto simp: ck_Inr_iff split: sum.splits prod.splits)
    note c0 = ck_ok [OF k0] and c1 = ck_ok [OF k1] and c2 = ck_ok [OF k2]
    from "1.IH" [OF True x c0 sh refl c1 w c2 rec] True rd_c_Inr [OF x]
      ins_shift_c_Inr [OF sh] wr_c_Inr [OF w] ustep
    show ?thesis by simp
  qed
qed

text \<open>Lines 17--50, with \<^verbatim>\<open>R - L\<close>, \<^verbatim>\<open>l - 1\<close>, \<^verbatim>\<open>l + 1\<close> and \<^verbatim>\<open>l = L + 1\<close> checked.\<close>

function rc_sort_int :: "double list \<Rightarrow> int \<Rightarrow> int \<Rightarrow> fault + double list" where
  "rc_sort_int arr L R =
     (case ck (R - L) of Inl e \<Rightarrow> Inl e | Inr d \<Rightarrow>
      if d > 25 then
        (case qs_partition_c arr L R of Inl e \<Rightarrow> Inl e | Inr (arr2, l) \<Rightarrow>
         (case ck (l - 1) of Inl e \<Rightarrow> Inl e | Inr hi \<Rightarrow>
          (case rc_sort_int arr2 L hi of Inl e \<Rightarrow> Inl e | Inr arr3 \<Rightarrow>
           (case ck (l + 1) of Inl e \<Rightarrow> Inl e | Inr lo \<Rightarrow>
            rc_sort_int arr3 lo R))))
      else
        (case ck (L + 1) of Inl e \<Rightarrow> Inl e | Inr l0 \<Rightarrow> ins_loop_c arr L R l0))"
  by pat_completeness auto
termination
proof (relation "measure (\<lambda>(arr, L, R). nat (R - L))", goal_cases)
  case 1
  show ?case by simp
next
  case (2 arr L R d x2 arr2 l hi)
  then have "qs_partition arr L R = Some (arr2, l)" "L \<le> R" "hi = l - 1" "d = R - L"
    by (auto dest!: qs_partition_c_Inr ck_Inr)
  with qs_partition_bounds [of arr L R arr2 l] 2 show ?case by simp
next
  case (3 arr L R d x2 arr2 l hi arr3 lo)
  then have "qs_partition arr L R = Some (arr2, l)" "L \<le> R" "lo = l + 1" "d = R - L"
    by (auto dest!: qs_partition_c_Inr ck_Inr)
  with qs_partition_bounds [of arr L R arr2 l] 3 show ?case by simp
qed

declare rc_sort_int.simps [simp del]



section \<open>Floating-point operations\<close>

text \<open>
  \<^verbatim>\<open>rc_logsumexp\<close> and \<^verbatim>\<open>rc_logsumexp_pair\<close> add and subtract doubles and call \<^verbatim>\<open>exp\<close> and
  \<^verbatim>\<open>log\<close> of \<^verbatim>\<open>math.h\<close>. These four operations belong to the platform (the floating-point
  unit and the C library), not to \<^verbatim>\<open>_lse.c\<close>: the functions take them as a parameter.
\<close>

record fpu =
  fadd :: "double \<Rightarrow> double \<Rightarrow> double"
  fsub :: "double \<Rightarrow> double \<Rightarrow> double"
  fexp :: "double \<Rightarrow> double"
  flog :: "double \<Rightarrow> double"

section \<open>rc\_logsumexp and rc\_logsumexp\_pair\<close>

text \<open>Lines 59--60: the summation loop, from \<open>i\<close> on; \<open>acc\<close> is the variable \<^verbatim>\<open>sum\<close>.\<close>

function sum_loop :: "fpu \<Rightarrow> double list \<Rightarrow> int \<Rightarrow> int \<Rightarrow> double \<Rightarrow> double option" where
  "sum_loop F arr len i acc =
     (if i < len - 1 then
        (case rd arr i of None \<Rightarrow> None | Some x \<Rightarrow>
         (case rd arr (len - 1) of None \<Rightarrow> None | Some m \<Rightarrow>
          sum_loop F arr len (i + 1) (fadd F acc (fexp F (fsub F x m)))))
      else Some acc)"
  by pat_completeness auto
termination
  by (relation "measure (\<lambda>(F, arr, len, i, acc). nat (len - 1 - i))") auto

declare sum_loop.simps [simp del]

text \<open>Lines 52--62. The array is sorted in place, so the model returns the array
  together with the result.\<close>

definition rc_logsumexp :: "fpu \<Rightarrow> double list \<Rightarrow> int \<Rightarrow> (double list \<times> double) option" where
  "rc_logsumexp F arr len =
     (case rc_sort arr 0 (len - 1) of None \<Rightarrow> None | Some s \<Rightarrow>
      (case rd s (len - 1) of None \<Rightarrow> None | Some m \<Rightarrow>
       if deq NEG_INF m then Some (s, NEG_INF)
       else (case sum_loop F s len 0 POS_ZERO of None \<Rightarrow> None | Some acc \<Rightarrow>
             Some (s, fadd F m (flog F (fadd F acc ONE))))))"

text \<open>Lines 64--71.\<close>

definition rc_logsumexp_pair :: "fpu \<Rightarrow> double \<Rightarrow> double \<Rightarrow> double" where
  "rc_logsumexp_pair F a b =
     (if deq NEG_INF a \<and> deq NEG_INF b then NEG_INF
      else if dgt b a then fadd F b (flog F (fadd F ONE (fexp F (fsub F a b))))
      else fadd F a (flog F (fadd F ONE (fexp F (fsub F b a)))))"

section \<open>What the platform guarantees\<close>

text \<open>
  Some claims depend on results of the four platform operations at particular operands.
  \<open>ieee_facts\<close> collects the ones used below. Each is prescribed by IEEE-754 for
  binary64 in the default rounding mode (to nearest), or by Annex F of the C standard for
  \<^verbatim>\<open>exp\<close> and \<^verbatim>\<open>log\<close>:
  \<^item> \<open>x + (+0) = (+0) + x = x\<close> for every \<open>x\<close> that is neither a NaN nor \<open>-0\<close>;
  \<^item> \<open>(-0) + (+0) = +0\<close>;
  \<^item> \<open>(-0) + x = x\<close> for every \<open>x\<close> that is neither a NaN nor a zero;
  \<^item> addition of two non-NaN operands is commutative;
  \<^item> \<open>1.0 + 1.0 = 2.0\<close>;
  \<^item> \<open>-\<infinity> - x = -\<infinity>\<close> for finite \<open>x\<close>;
  \<^item> the difference of two finite values is not a NaN;
  \<^item> the difference of two zeros is a zero;
  \<^item> \<open>exp(-\<infinity>) = +0\<close>, \<open>exp(\<plusminus>0) = 1\<close>, and \<open>exp\<close> of a non-NaN is neither a NaN nor \<open>-0\<close>;
  \<^item> \<open>log(1) = +0\<close>, and \<open>log(2.0) > 0\<close>.
\<close>

definition ieee_facts :: "fpu \<Rightarrow> bool" where
  "ieee_facts F \<longleftrightarrow>
     (\<forall>x. \<not> isnan x \<and> x \<noteq> NEG_ZERO \<longrightarrow> fadd F x POS_ZERO = x \<and> fadd F POS_ZERO x = x) \<and>
     fadd F NEG_ZERO POS_ZERO = POS_ZERO \<and>
     (\<forall>x. \<not> isnan x \<and> \<not> is_zero x \<longrightarrow> fadd F NEG_ZERO x = x) \<and>
     (\<forall>x y. \<not> isnan x \<and> \<not> isnan y \<longrightarrow> fadd F x y = fadd F y x) \<and>
     fadd F ONE ONE = TWO \<and>
     (\<forall>x. is_finite x \<longrightarrow> fsub F NEG_INF x = NEG_INF) \<and>
     (\<forall>x y. is_finite x \<and> is_finite y \<longrightarrow> \<not> isnan (fsub F x y)) \<and>
     (\<forall>x y. is_zero x \<and> is_zero y \<longrightarrow> is_zero (fsub F x y)) \<and>
     fexp F NEG_INF = POS_ZERO \<and>
     (\<forall>x. is_zero x \<longrightarrow> fexp F x = ONE) \<and>
     (\<forall>x. \<not> isnan x \<longrightarrow> \<not> isnan (fexp F x) \<and> fexp F x \<noteq> NEG_ZERO) \<and>
     flog F ONE = POS_ZERO \<and>
     dlt POS_ZERO (flog F TWO)"

section \<open>Notions used in the statements\<close>

text \<open>\<open>slice a L R\<close> is the list of the elements of \<open>a\<close> at the indices \<open>L..R\<close>.\<close>

definition slice :: "double list \<Rightarrow> int \<Rightarrow> int \<Rightarrow> double list" where
  "slice a L R = take (nat (R + 1 - L)) (drop (nat L) a)"

text \<open>One step of the summation: \<^verbatim>\<open>sum += exp(x - max)\<close>.\<close>

definition lse_term :: "fpu \<Rightarrow> double \<Rightarrow> double \<Rightarrow> double \<Rightarrow> double" where
  "lse_term F m acc x = fadd F acc (fexp F (fsub F x m))"

text \<open>The same notions by index, for the proofs.\<close>

definition sorted_on :: "double list \<Rightarrow> int \<Rightarrow> int \<Rightarrow> bool" where
  "sorted_on a L R = (\<forall>i j. L \<le> i \<and> i < j \<and> j \<le> R \<longrightarrow> dle (a ! nat i) (a ! nat j))"

definition nanfree_on :: "double list \<Rightarrow> int \<Rightarrow> int \<Rightarrow> bool" where
  "nanfree_on a L R = (\<forall>i. L \<le> i \<and> i \<le> R \<longrightarrow> \<not> isnan (a ! nat i))"

definition same_outside :: "double list \<Rightarrow> double list \<Rightarrow> int \<Rightarrow> int \<Rightarrow> bool" where
  "same_outside a b L R =
     (\<forall>i. 0 \<le> i \<and> i < int (length b) \<and> (i < L \<or> R < i) \<longrightarrow> a ! nat i = b ! nat i)"

section \<open>Example inputs\<close>

text \<open>
  An example platform, to run the functions on concrete inputs: it gives the results
  listed in \<open>ieee_facts\<close>, the IEEE-754 results for NaN operands, equal operands, zero
  operands and \<open>log\<close> of \<open>1.0\<close> and \<open>2.0\<close>, and saturates elsewhere. It stands for
  no real platform beyond these operands.
\<close>

definition LN2 :: double where "LN2 = 0x3FE62E42FEFA39EF"

definition table_add :: "double \<Rightarrow> double \<Rightarrow> double" where
  "table_add x y =
     (if isnan x \<or> isnan y then QNAN
      else if is_zero x \<and> is_zero y then (if x = NEG_ZERO \<and> y = NEG_ZERO then NEG_ZERO else POS_ZERO)
      else if is_zero x then y
      else if is_zero y then x
      else if x = ONE \<and> y = ONE then TWO
      else POS_INF)"

definition table_sub :: "double \<Rightarrow> double \<Rightarrow> double" where
  "table_sub x y =
     (if isnan x \<or> isnan y then QNAN
      else if is_zero x \<and> is_zero y then (if x = NEG_ZERO \<and> y = POS_ZERO then NEG_ZERO else POS_ZERO)
      else if is_zero y then x
      else if x = y then (if is_finite x then POS_ZERO else QNAN)
      else if x = NEG_INF then NEG_INF
      else if dlt x y then NEG_INF else POS_INF)"

definition table_exp :: "double \<Rightarrow> double" where
  "table_exp x =
     (if isnan x then x
      else if is_zero x then ONE
      else if sign_bit x then POS_ZERO else POS_INF)"

definition table_log :: "double \<Rightarrow> double" where
  "table_log x =
     (if isnan x then x
      else if is_zero x then NEG_INF
      else if sign_bit x then QNAN
      else if x = ONE then POS_ZERO
      else if x = TWO then LN2
      else POS_INF)"

definition fpu_table :: fpu where
  "fpu_table = \<lparr>fadd = table_add, fsub = table_sub, fexp = table_exp, flog = table_log\<rparr>"

text \<open>Arrays of 27 elements, the shortest that take the quicksort branch, and what the
  partition step and the sort make of them.\<close>

definition w27 :: "double list" where
  "w27 = [FIVE, ONE, TWO, FIVE, ONE, TWO, FIVE, ONE, TWO, FIVE, ONE, TWO, FIVE, ONE, TWO,
     FIVE, ONE, TWO, FIVE, ONE, TWO, FIVE, ONE, TWO, FIVE, ONE, TWO]"

definition w27_partitioned :: "double list" where
  "w27_partitioned =
     [ONE, ONE, TWO, ONE, ONE, TWO, ONE, ONE, TWO, ONE, ONE, TWO, ONE, TWO, TWO,
     FIVE, FIVE, TWO, FIVE, FIVE, TWO, FIVE, FIVE, TWO, FIVE, FIVE, FIVE]"

definition c27 :: "double list" where
  "c27 = [QNAN, ONE, TWO, FIVE, ONE, TWO, FIVE, ONE, TWO, FIVE, ONE, TWO, FIVE, ONE, TWO,
     FIVE, ONE, TWO, FIVE, ONE, TWO, FIVE, ONE, TWO, FIVE, ONE, TWO]"

definition c27_partitioned :: "double list" where
  "c27_partitioned =
     [ONE, ONE, TWO, ONE, ONE, TWO, ONE, ONE, TWO, ONE, ONE, TWO, ONE, TWO, TWO,
     FIVE, FIVE, TWO, FIVE, FIVE, TWO, FIVE, FIVE, TWO, FIVE, QNAN, FIVE]"



section \<open>Facts about the comparison and the array operations\<close>

lemma dlt_irrefl: "\<not> dlt a a"
  by (simp add: dlt_def)

lemma not_dlt_dle: "\<not> isnan a \<Longrightarrow> \<not> isnan b \<Longrightarrow> \<not> dlt a b \<Longrightarrow> dle b a"
  by (simp add: dlt_def dle_def)

lemma dlt_dle: "dlt a b \<Longrightarrow> dle a b"
  by (simp add: dlt_def dle_def)

lemma dle_refl: "\<not> isnan a \<Longrightarrow> dle a a"
  by (simp add: dle_def)

lemma dle_trans: "dle a b \<Longrightarrow> dle b c \<Longrightarrow> dle a c"
  by (auto simp: dle_def)


lemma rd_Some: "in_bounds arr i \<Longrightarrow> rd arr i = Some (arr ! nat i)"
  by (simp add: rd_def)

lemma rd_SomeD: "rd arr i = Some x \<Longrightarrow> in_bounds arr i \<and> x = arr ! nat i"
  by (simp add: rd_def split: if_splits)

lemma wr_Some: "in_bounds arr i \<Longrightarrow> wr arr i v = Some (arr[nat i := v])"
  by (simp add: wr_def)

lemma swap_elems_Some:
  "in_bounds arr i \<Longrightarrow> in_bounds arr j \<Longrightarrow>
   swap_elems arr i j = Some (arr[nat i := arr ! nat j, nat j := arr ! nat i])"
  by (simp add: swap_elems_def rd_def wr_def in_bounds_def)

lemma in_bounds_nat: "in_bounds arr i \<Longrightarrow> nat i < length arr"
  by (auto simp: in_bounds_def)

lemma mset_swap_elems:
  "in_bounds arr i \<Longrightarrow> in_bounds arr j \<Longrightarrow>
   mset (arr[nat i := arr ! nat j, nat j := arr ! nat i]) = mset arr"
  by (rule mset_swap [OF in_bounds_nat in_bounds_nat])

text \<open>Bit patterns: sign and magnitude determine a double.\<close>

lemmas dbl_consts = POS_ZERO_def NEG_ZERO_def ONE_def TWO_def FIVE_def POS_INF_def NEG_INF_def QNAN_def

lemmas dbl_cmp = dlt_def dgt_def dle_def deq_def isnan_def dkey_def magnitude_def sign_bit_def

lemma const_cmp:
  "dlt ONE TWO" "\<not> dlt TWO ONE" "dlt ONE FIVE" "\<not> dlt FIVE ONE" "dlt TWO FIVE" "\<not> dlt FIVE TWO"
  "\<not> dlt ONE QNAN" "\<not> dlt QNAN ONE" "\<not> dlt QNAN TWO" "\<not> dlt TWO QNAN"
  "\<not> dlt POS_ZERO NEG_ZERO" "\<not> dlt NEG_ZERO POS_ZERO" "dlt NEG_INF FIVE" "\<not> dlt FIVE NEG_INF"
  "dle ONE TWO" "dle TWO FIVE" "dle ONE FIVE" "\<not> dle TWO QNAN" "\<not> dle QNAN ONE" "\<not> dle TWO ONE"
  "dle POS_ZERO POS_ZERO" "dle NEG_ZERO POS_ZERO" "dle POS_ZERO NEG_ZERO" "dle NEG_ZERO NEG_ZERO"
  "\<not> isnan ONE" "\<not> isnan TWO" "\<not> isnan FIVE" "\<not> isnan POS_ZERO" "\<not> isnan NEG_ZERO"
  "\<not> isnan NEG_INF" "\<not> isnan POS_INF" "isnan QNAN"
  by (simp_all add: dbl_consts dbl_cmp)

lemma key_inj: "sign_bit a = sign_bit b \<Longrightarrow> magnitude a = magnitude b \<Longrightarrow> a = b"
  unfolding sign_bit_def magnitude_def
proof (rule bit_word_eqI)
  fix n
  assume s: "bit a 63 = bit b 63" and m: "unat (take_bit 63 a) = unat (take_bit 63 b)"
    and n: "n < LENGTH(64)"
  from m have t: "take_bit 63 a = take_bit 63 b" by (simp add: word_unat_eq_iff)
  show "bit a n = bit b n"
  proof (cases "n < 63")
    case True
    have "bit (take_bit 63 a) n = bit (take_bit 63 b) n" using t by simp
    then show ?thesis using True by (simp add: bit_take_bit_iff)
  next
    case False
    with n have "n = 63" by simp
    then show ?thesis using s by simp
  qed
qed

lemma const_bits:
  "\<not> sign_bit POS_ZERO" "magnitude POS_ZERO = 0" "sign_bit NEG_ZERO" "magnitude NEG_ZERO = 0"
  "sign_bit NEG_INF" "magnitude NEG_INF = 0x7FF0000000000000"
  by (simp_all add: dbl_consts sign_bit_def magnitude_def)

lemma is_zero_cases: "is_zero x \<Longrightarrow> x = POS_ZERO \<or> x = NEG_ZERO"
  by (cases "sign_bit x") (auto simp: is_zero_def const_bits intro: key_inj)

lemma deq_cases: "deq x y \<Longrightarrow> x = y \<or> (is_zero x \<and> is_zero y)"
  by (cases "magnitude x = 0")
     (auto simp: deq_def dkey_def is_zero_def split: if_splits intro: key_inj)

lemma deq_NEG_INF: "deq NEG_INF m = (m = NEG_INF)"
proof
  assume "deq NEG_INF m"
  then have "sign_bit m = sign_bit NEG_INF \<and> magnitude m = magnitude NEG_INF"
    by (auto simp: deq_def dkey_def const_bits split: if_splits)
  then show "m = NEG_INF" by (auto intro: key_inj)
qed (simp add: deq_def const_cmp)

lemma zero_consts: "is_zero POS_ZERO" "is_zero NEG_ZERO" "\<not> is_zero ONE" "\<not> is_zero TWO"
  "\<not> is_zero FIVE" "\<not> is_zero NEG_INF" "\<not> is_zero LN2" "POS_ZERO \<noteq> NEG_ZERO" "NEG_ZERO \<noteq> POS_ZERO"
  "ONE \<noteq> TWO" "TWO \<noteq> ONE" "is_finite ONE" "is_finite TWO" "is_finite FIVE" "is_finite POS_ZERO"
  "is_finite NEG_ZERO" "\<not> is_finite NEG_INF" "\<not> is_finite POS_INF" "FIVE \<noteq> NEG_INF"
  "NEG_INF \<noteq> FIVE" "ONE \<noteq> NEG_INF" "TWO \<noteq> NEG_INF" "NEG_INF \<noteq> ONE" "NEG_INF \<noteq> TWO"
  "POS_INF \<noteq> NEG_ZERO" "POS_ZERO \<noteq> NEG_INF" "NEG_ZERO \<noteq> NEG_INF" "ONE \<noteq> NEG_ZERO"
  "dlt POS_ZERO LN2" "\<not> isnan LN2" "sign_bit NEG_INF" "\<not> sign_bit ONE" "\<not> sign_bit TWO"
  "\<not> sign_bit FIVE"
  by (simp_all add: dbl_consts LN2_def is_zero_def is_finite_def dbl_cmp)

lemma finite_not_nan: "is_finite x \<Longrightarrow> \<not> isnan x"
  by (simp add: is_finite_def isnan_def)

lemma zero_finite: "is_zero x \<Longrightarrow> is_finite x"
  by (simp add: is_finite_def is_zero_def)

lemma finite_not_neg_inf: "is_finite x \<Longrightarrow> x \<noteq> NEG_INF"
  using zero_consts by auto

section \<open>The partition step\<close>

lemma scan_left_spec:
  "-1 \<le> l \<Longrightarrow> l < R \<Longrightarrow> R < int (length arr) \<Longrightarrow>
   \<exists>l'. scan_left arr R l = Some l' \<and> l < l' \<and> l' \<le> R \<and>
        (\<forall>i. l < i \<and> i < l' \<longrightarrow> dlt (arr ! nat i) (arr ! nat R)) \<and>
        \<not> dlt (arr ! nat l') (arr ! nat R)"
proof (induction arr R l rule: scan_left.induct)
  case (1 arr R l)
  note step = scan_left.simps [of arr R l]
  have x: "rd arr (l + 1) = Some (arr ! nat (l + 1))" and p: "rd arr R = Some (arr ! nat R)"
    using "1.prems" by (auto intro!: rd_Some simp: in_bounds_def)
  show ?case
  proof (cases "dlt (arr ! nat (l + 1)) (arr ! nat R)")
    case True
    then have "l + 1 \<noteq> R" by (auto simp: dlt_def)
    with "1.prems" have "l + 1 < R" by simp
    with "1.IH" [OF x p True] "1.prems" obtain l' where
      l': "scan_left arr R (l + 1) = Some l'" "l + 1 < l'" "l' \<le> R"
        "\<forall>i. l + 1 < i \<and> i < l' \<longrightarrow> dlt (arr ! nat i) (arr ! nat R)"
        "\<not> dlt (arr ! nat l') (arr ! nat R)"
      by auto
    have "\<forall>i. l < i \<and> i < l' \<longrightarrow> dlt (arr ! nat i) (arr ! nat R)"
    proof (intro allI impI)
      fix i assume "l < i \<and> i < l'"
      then have "i = l + 1 \<or> (l + 1 < i \<and> i < l')" by auto
      then show "dlt (arr ! nat i) (arr ! nat R)" using True l'(4) by auto
    qed
    with l' x p True step show ?thesis by auto
  next
    case False
    have "\<forall>i. l < i \<and> i < l + 1 \<longrightarrow> dlt (arr ! nat i) (arr ! nat R)" by auto
    with False x p step "1.prems" show ?thesis by auto
  qed
qed

lemma scan_right_spec:
  "0 \<le> l \<Longrightarrow> 1 \<le> r \<Longrightarrow> r \<le> R \<Longrightarrow> R < int (length arr) \<Longrightarrow>
   \<exists>r'. scan_right arr R l r = Some r' \<and> r' < r \<and> 0 \<le> r' \<and> (l \<le> r' \<or> r' = r - 1) \<and>
        (\<forall>i. r' < i \<and> i < r \<longrightarrow> dgt (arr ! nat i) (arr ! nat R)) \<and>
        (\<not> dgt (arr ! nat r') (arr ! nat R) \<or> r' \<le> l)"
proof (induction arr R l r rule: scan_right.induct)
  case (1 arr R l r)
  note step = scan_right.simps [of arr R l r]
  have x: "rd arr (r - 1) = Some (arr ! nat (r - 1))" and p: "rd arr R = Some (arr ! nat R)"
    using "1.prems" by (auto intro!: rd_Some simp: in_bounds_def)
  show ?case
  proof (cases "dgt (arr ! nat (r - 1)) (arr ! nat R) \<and> r - 1 > l")
    case True
    with "1.IH" [OF x p True] "1.prems" obtain r' where
      r': "scan_right arr R l (r - 1) = Some r'" "r' < r - 1" "0 \<le> r'" "l \<le> r' \<or> r' = r - 1 - 1"
        "\<forall>i. r' < i \<and> i < r - 1 \<longrightarrow> dgt (arr ! nat i) (arr ! nat R)"
        "\<not> dgt (arr ! nat r') (arr ! nat R) \<or> r' \<le> l"
      by auto
    have "\<forall>i. r' < i \<and> i < r \<longrightarrow> dgt (arr ! nat i) (arr ! nat R)"
    proof (intro allI impI)
      fix i assume "r' < i \<and> i < r"
      then have "i = r - 1 \<or> (r' < i \<and> i < r - 1)" by auto
      then show "dgt (arr ! nat i) (arr ! nat R)" using True r'(5) by auto
    qed
    moreover have "l \<le> r'" using r'(4) True by auto
    ultimately show ?thesis using r' x p True step by auto
  next
    case False
    have "\<forall>i. r - 1 < i \<and> i < r \<longrightarrow> dgt (arr ! nat i) (arr ! nat R)" by auto
    with False x p step "1.prems" show ?thesis by auto
  qed
qed

lemma part_loop_spec:
  "-1 \<le> l \<Longrightarrow> l < r \<Longrightarrow> 1 \<le> r \<Longrightarrow> r \<le> R \<Longrightarrow> R < int (length arr) \<Longrightarrow>
   \<exists>arr' l'. part_loop arr R l r = Some (arr', l') \<and> length arr' = length arr \<and>
      mset arr' = mset arr \<and> l < l' \<and> l' \<le> R \<and>
      (\<forall>i. 0 \<le> i \<and> i < int (length arr) \<and> (i \<le> l \<or> r \<le> i) \<longrightarrow>
           arr' ! nat i = arr ! nat i) \<and>
      ((\<forall>i. l < i \<and> i \<le> R \<longrightarrow> \<not> isnan (arr ! nat i)) \<and>
       (\<forall>i. r \<le> i \<and> i \<le> R \<longrightarrow> dle (arr ! nat R) (arr ! nat i)) \<longrightarrow>
       (\<forall>i. l < i \<and> i < l' \<longrightarrow> dle (arr' ! nat i) (arr ! nat R)) \<and>
       (\<forall>i. l' \<le> i \<and> i \<le> R \<longrightarrow> dle (arr ! nat R) (arr' ! nat i)))"
proof (induction arr R l r rule: part_loop.induct)
  case (1 arr R l r)
  note step = part_loop.simps [of arr R l r]
  let ?p = "arr ! nat R"
  from scan_left_spec [of l R arr] "1.prems" obtain l1 where
    l1: "scan_left arr R l = Some l1" "l < l1" "l1 \<le> R"
      "\<forall>i. l < i \<and> i < l1 \<longrightarrow> dlt (arr ! nat i) ?p" "\<not> dlt (arr ! nat l1) ?p"
    by auto
  from scan_right_spec [of l1 r R arr] "1.prems" l1 obtain r1 where
    r1: "scan_right arr R l1 r = Some r1" "r1 < r" "0 \<le> r1" "l1 \<le> r1 \<or> r1 = r - 1"
      "\<forall>i. r1 < i \<and> i < r \<longrightarrow> dgt (arr ! nat i) ?p" "\<not> dgt (arr ! nat r1) ?p \<or> r1 \<le> l1"
    by auto
  show ?case
  proof (cases "l1 \<ge> r1")
    case True
    have res: "part_loop arr R l r = Some (arr, l1)" using step l1(1) r1(1) True by simp
    have ord: "(\<forall>i. l < i \<and> i < l1 \<longrightarrow> dle (arr ! nat i) ?p) \<and>
       (\<forall>i. l1 \<le> i \<and> i \<le> R \<longrightarrow> dle ?p (arr ! nat i))"
      if nf: "\<forall>i. l < i \<and> i \<le> R \<longrightarrow> \<not> isnan (arr ! nat i)"
        and hi: "\<forall>i. r \<le> i \<and> i \<le> R \<longrightarrow> dle ?p (arr ! nat i)"
    proof (intro conjI allI impI)
      fix i assume "l < i \<and> i < l1"
      with l1(4) show "dle (arr ! nat i) ?p" by (auto intro: dlt_dle)
    next
      fix i assume i: "l1 \<le> i \<and> i \<le> R"
      have pn: "\<not> isnan ?p" using nf "1.prems" by auto
      from i consider "i = l1" | "r1 < i" "i < r" | "r \<le> i" using True by linarith
      then show "dle ?p (arr ! nat i)"
      proof cases
        case 1
        have "\<not> isnan (arr ! nat l1)" using nf l1 by auto
        with 1 l1(5) pn show ?thesis by (auto intro: not_dlt_dle)
      next
        case 2
        with r1(5) show ?thesis by (auto simp: dgt_def intro: dlt_dle)
      next
        case 3
        with hi i show ?thesis by auto
      qed
    qed
    show ?thesis using res l1(2,3) ord by auto
  next
    case False
    then have lr: "l1 < r1" by simp
    have ib: "in_bounds arr l1" "in_bounds arr r1"
      using "1.prems" l1 r1 by (auto simp: in_bounds_def)
    define a1 where "a1 = arr[nat l1 := arr ! nat r1, nat r1 := arr ! nat l1]"
    have sw: "swap_elems arr l1 r1 = Some a1"
      unfolding a1_def by (rule swap_elems_Some [OF ib])
    have len1: "length a1 = length arr" by (simp add: a1_def)
    have ms1: "mset a1 = mset arr"
      unfolding a1_def by (rule mset_swap_elems [OF ib])
    have nth1: "a1 ! nat i = (if i = r1 then arr ! nat l1 else if i = l1 then arr ! nat r1 else arr ! nat i)"
      if "0 \<le> i" "i < int (length arr)" for i
      using that ib lr "1.prems" l1 r1 by (auto simp: a1_def in_bounds_def nth_list_update)
    have pR: "a1 ! nat R = ?p" using nth1 [of R] "1.prems" l1 r1 lr by auto
    from "1.IH" [OF l1(1) r1(1) False sw] "1.prems" l1 r1 lr len1 obtain arr' l' where
      rec: "part_loop a1 R l1 r1 = Some (arr', l')" "length arr' = length a1"
        "mset arr' = mset a1" "l1 < l'" "l' \<le> R"
        "\<forall>i. 0 \<le> i \<and> i < int (length a1) \<and> (i \<le> l1 \<or> r1 \<le> i) \<longrightarrow>
           arr' ! nat i = a1 ! nat i"
        "(\<forall>i. l1 < i \<and> i \<le> R \<longrightarrow> \<not> isnan (a1 ! nat i)) \<and>
         (\<forall>i. r1 \<le> i \<and> i \<le> R \<longrightarrow> dle (a1 ! nat R) (a1 ! nat i)) \<longrightarrow>
         (\<forall>i. l1 < i \<and> i < l' \<longrightarrow> dle (arr' ! nat i) (a1 ! nat R)) \<and>
         (\<forall>i. l' \<le> i \<and> i \<le> R \<longrightarrow> dle (a1 ! nat R) (arr' ! nat i))"
      by auto
    have res: "part_loop arr R l r = Some (arr', l')"
      using step l1(1) r1(1) False sw rec(1) by simp
    have frame: "\<forall>i. 0 \<le> i \<and> i < int (length arr) \<and> (i \<le> l \<or> r \<le> i) \<longrightarrow>
        arr' ! nat i = arr ! nat i"
    proof (intro allI impI)
      fix i assume i: "0 \<le> i \<and> i < int (length arr) \<and> (i \<le> l \<or> r \<le> i)"
      have "arr' ! nat i = a1 ! nat i" using rec(6) i l1(2) r1(2) len1 by auto
      also have "\<dots> = arr ! nat i" using nth1 [of i] i l1(2) r1(2) lr by auto
      finally show "arr' ! nat i = arr ! nat i" .
    qed
    have ord: "(\<forall>i. l < i \<and> i < l' \<longrightarrow> dle (arr' ! nat i) ?p) \<and>
       (\<forall>i. l' \<le> i \<and> i \<le> R \<longrightarrow> dle ?p (arr' ! nat i))"
      if nf: "\<forall>i. l < i \<and> i \<le> R \<longrightarrow> \<not> isnan (arr ! nat i)"
        and hi: "\<forall>i. r \<le> i \<and> i \<le> R \<longrightarrow> dle ?p (arr ! nat i)"
    proof -
      have pn: "\<not> isnan ?p" using nf "1.prems" by auto
      have nl1: "\<not> isnan (arr ! nat l1)" and nr1: "\<not> isnan (arr ! nat r1)"
        using nf l1 r1 lr "1.prems" by auto
      have le_r1: "dle (arr ! nat r1) ?p"
        using r1(6) lr nr1 pn by (auto simp: dgt_def intro: not_dlt_dle)
      have ge_l1: "dle ?p (arr ! nat l1)"
        using l1(5) nl1 pn by (auto intro: not_dlt_dle)
      have nf1: "\<forall>i. l1 < i \<and> i \<le> R \<longrightarrow> \<not> isnan (a1 ! nat i)"
      proof (intro allI impI)
        fix i assume i: "l1 < i \<and> i \<le> R"
        then have "a1 ! nat i = (if i = r1 then arr ! nat l1 else arr ! nat i)"
          using nth1 [of i] "1.prems" l1 by auto
        then show "\<not> isnan (a1 ! nat i)" using nl1 nf i l1 by auto
      qed
      have hi1: "\<forall>i. r1 \<le> i \<and> i \<le> R \<longrightarrow> dle (a1 ! nat R) (a1 ! nat i)"
      proof (intro allI impI)
        fix i assume i: "r1 \<le> i \<and> i \<le> R"
        then have e: "a1 ! nat i = (if i = r1 then arr ! nat l1 else arr ! nat i)"
          using nth1 [of i] "1.prems" l1 r1 lr by auto
        from i consider "i = r1" | "r1 < i" "i < r" | "r \<le> i" by linarith
        then show "dle (a1 ! nat R) (a1 ! nat i)"
        proof cases
          case 1
          with e ge_l1 pR show ?thesis by simp
        next
          case 2
          with r1(5) have "dle ?p (arr ! nat i)" by (auto simp: dgt_def intro: dlt_dle)
          with 2 e pR show ?thesis by simp
        next
          case 3
          with hi i have "dle ?p (arr ! nat i)" by auto
          with 3 e pR r1 show ?thesis by simp
        qed
      qed
      from rec(7) nf1 hi1 pR have
        lo': "\<forall>i. l1 < i \<and> i < l' \<longrightarrow> dle (arr' ! nat i) ?p" and
        hi': "\<forall>i. l' \<le> i \<and> i \<le> R \<longrightarrow> dle ?p (arr' ! nat i)"
        by auto
      have "\<forall>i. l < i \<and> i < l' \<longrightarrow> dle (arr' ! nat i) ?p"
      proof (intro allI impI)
        fix i assume i: "l < i \<and> i < l'"
        from i consider "i < l1" | "i = l1" | "l1 < i" by linarith
        then show "dle (arr' ! nat i) ?p"
        proof cases
          case 1
          have ib: "0 \<le> i" "i < int (length arr)" using i 1 "1.prems" l1(3) by auto
          have "arr' ! nat i = a1 ! nat i" using rec(6) 1 ib len1 by auto
          also have "\<dots> = arr ! nat i" using nth1 [of i] 1 ib lr by auto
          finally show ?thesis using l1(4) i 1 by (auto intro: dlt_dle)
        next
          case 2
          have ib: "0 \<le> i" "i < int (length arr)" using i 2 "1.prems" l1(3) by auto
          have "arr' ! nat i = a1 ! nat i" using rec(6) 2 ib len1 by auto
          also have "\<dots> = arr ! nat r1" using nth1 [of i] 2 ib lr by auto
          finally show ?thesis using le_r1 by simp
        next
          case 3
          with lo' i show ?thesis by auto
        qed
      qed
      with hi' show ?thesis by simp
    qed
    show ?thesis using res rec(2,3,4,5) len1 ms1 l1(2) frame ord by auto
  qed
qed

lemma qs_partition_spec:
  assumes "0 \<le> L" "L < R" "R < int (length arr)"
  shows "\<exists>arr2 l. qs_partition arr L R = Some (arr2, l) \<and> L \<le> l \<and> l \<le> R \<and>
      length arr2 = length arr \<and> mset arr2 = mset arr \<and>
      (\<forall>i. 0 \<le> i \<and> i < int (length arr) \<and> (i < L \<or> R < i) \<longrightarrow>
           arr2 ! nat i = arr ! nat i) \<and>
      arr2 ! nat l = arr ! nat R \<and>
      ((\<forall>i. L \<le> i \<and> i \<le> R \<longrightarrow> \<not> isnan (arr ! nat i)) \<longrightarrow>
       (\<forall>i. L \<le> i \<and> i < l \<longrightarrow> dle (arr2 ! nat i) (arr2 ! nat l)) \<and>
       (\<forall>i. l < i \<and> i \<le> R \<longrightarrow> dle (arr2 ! nat l) (arr2 ! nat i)))"
proof -
  let ?p = "arr ! nat R"
  from part_loop_spec [of "L - 1" R R arr] assms obtain arr1 l where
    pl: "part_loop arr R (L - 1) R = Some (arr1, l)" "length arr1 = length arr"
      "mset arr1 = mset arr" "L - 1 < l" "l \<le> R"
      "\<forall>i. 0 \<le> i \<and> i < int (length arr) \<and> (i \<le> L - 1 \<or> R \<le> i) \<longrightarrow>
           arr1 ! nat i = arr ! nat i"
      "(\<forall>i. L - 1 < i \<and> i \<le> R \<longrightarrow> \<not> isnan (arr ! nat i)) \<and>
       (\<forall>i. R \<le> i \<and> i \<le> R \<longrightarrow> dle ?p (arr ! nat i)) \<longrightarrow>
       (\<forall>i. L - 1 < i \<and> i < l \<longrightarrow> dle (arr1 ! nat i) ?p) \<and>
       (\<forall>i. l \<le> i \<and> i \<le> R \<longrightarrow> dle ?p (arr1 ! nat i))"
    by auto
  have ib: "in_bounds arr1 l" "in_bounds arr1 R"
    using assms pl by (auto simp: in_bounds_def)
  define arr2 where "arr2 = arr1[nat l := arr1 ! nat R, nat R := arr1 ! nat l]"
  have sw: "swap_elems arr1 l R = Some arr2"
    unfolding arr2_def by (rule swap_elems_Some [OF ib])
  have res: "qs_partition arr L R = Some (arr2, l)"
    by (simp add: qs_partition_def pl(1) sw)
  have len2: "length arr2 = length arr" by (simp add: arr2_def pl(2))
  have ms2: "mset arr2 = mset arr"
    unfolding arr2_def using mset_swap_elems [OF ib] pl(3) by simp
  have pR: "arr1 ! nat R = ?p" using pl(6) assms by auto
  have nth2: "arr2 ! nat i = (if i = R then arr1 ! nat l else if i = l then ?p else arr1 ! nat i)"
    if "0 \<le> i" "i < int (length arr)" for i
    using that ib pl(2,4,5) assms pR by (auto simp: arr2_def in_bounds_def nth_list_update)
  have frame: "\<forall>i. 0 \<le> i \<and> i < int (length arr) \<and> (i < L \<or> R < i) \<longrightarrow>
           arr2 ! nat i = arr ! nat i"
  proof (intro allI impI)
    fix i assume i: "0 \<le> i \<and> i < int (length arr) \<and> (i < L \<or> R < i)"
    have "arr2 ! nat i = arr1 ! nat i" using nth2 [of i] i pl(4,5) by auto
    also have "\<dots> = arr ! nat i" using pl(6) i by auto
    finally show "arr2 ! nat i = arr ! nat i" .
  qed
  have piv: "arr2 ! nat l = ?p"
    using nth2 [of l] pl(4,5) assms pR by auto
  have ord: "(\<forall>i. L \<le> i \<and> i < l \<longrightarrow> dle (arr2 ! nat i) (arr2 ! nat l)) \<and>
       (\<forall>i. l < i \<and> i \<le> R \<longrightarrow> dle (arr2 ! nat l) (arr2 ! nat i))"
    if nf: "\<forall>i. L \<le> i \<and> i \<le> R \<longrightarrow> \<not> isnan (arr ! nat i)"
  proof -
    have pn: "\<not> isnan ?p" using nf assms by auto
    have "\<forall>i. R \<le> i \<and> i \<le> R \<longrightarrow> dle ?p (arr ! nat i)"
      using pn by (auto intro: dle_refl)
    with pl(7) nf have
      lo: "\<forall>i. L - 1 < i \<and> i < l \<longrightarrow> dle (arr1 ! nat i) ?p" and
      hi: "\<forall>i. l \<le> i \<and> i \<le> R \<longrightarrow> dle ?p (arr1 ! nat i)"
      by auto
    show ?thesis
    proof (intro conjI allI impI)
      fix i assume i: "L \<le> i \<and> i < l"
      then have "arr2 ! nat i = arr1 ! nat i" using nth2 [of i] assms pl(5) by auto
      with lo i piv show "dle (arr2 ! nat i) (arr2 ! nat l)" by auto
    next
      fix i assume i: "l < i \<and> i \<le> R"
      then have "arr2 ! nat i = (if i = R then arr1 ! nat l else arr1 ! nat i)"
        using nth2 [of i] assms pl(4) by auto
      with hi i piv pl(5) show "dle (arr2 ! nat l) (arr2 ! nat i)" by auto
    qed
  qed
  show ?thesis using res pl(4,5) len2 ms2 frame piv ord by auto
qed

section \<open>The insertion sort\<close>

lemma ins_shift_spec:
  "0 \<le> L \<Longrightarrow> L - 1 \<le> r \<Longrightarrow> r + 1 < int (length arr) \<Longrightarrow>
   \<exists>arr' r'. ins_shift arr L swap r = Some (arr', r') \<and> length arr' = length arr \<and>
      L - 1 \<le> r' \<and> r' \<le> r \<and>
      mset (arr'[nat (r' + 1) := swap]) = mset (arr[nat (r + 1) := swap]) \<and>
      (\<forall>i. 0 \<le> i \<and> i < int (length arr) \<and> (i \<le> r' \<or> r + 1 < i) \<longrightarrow>
           arr' ! nat i = arr ! nat i) \<and>
      (\<forall>i. r' + 1 < i \<and> i \<le> r + 1 \<longrightarrow>
           arr' ! nat i = arr ! nat (i - 1) \<and> dlt swap (arr ! nat (i - 1))) \<and>
      (L \<le> r' \<longrightarrow> \<not> dlt swap (arr ! nat r'))"
proof (induction arr L swap r rule: ins_shift.induct)
  case (1 arr L swap r)
  note step = ins_shift.simps [of arr L swap r]
  show ?case
  proof (cases "r \<ge> L \<and> dlt swap (arr ! nat r)")
    case False
    have ibr: "r \<ge> L \<Longrightarrow> rd arr r = Some (arr ! nat r)"
      using "1.prems" by (auto intro!: rd_Some simp: in_bounds_def)
    have res: "ins_shift arr L swap r = Some (arr, r)"
      using step False ibr by (cases "r \<ge> L") auto
    have "\<forall>i. r + 1 < i \<and> i \<le> r + 1 \<longrightarrow>
           arr ! nat i = arr ! nat (i - 1) \<and> dlt swap (arr ! nat (i - 1))" by auto
    with res False "1.prems" show ?thesis by auto
  next
    case True
    let ?x = "arr ! nat r"
    have rdr: "rd arr r = Some ?x"
      using "1.prems" True by (auto intro!: rd_Some simp: in_bounds_def)
    define a1 where "a1 = arr[nat (r + 1) := ?x]"
    have ib1: "in_bounds arr (r + 1)" using "1.prems" True by (auto simp: in_bounds_def)
    have w: "wr arr (r + 1) ?x = Some a1"
      unfolding a1_def by (rule wr_Some [OF ib1])
    have len1: "length a1 = length arr" by (simp add: a1_def)
    have nth1: "a1 ! nat i = (if i = r + 1 then ?x else arr ! nat i)"
      if "0 \<le> i" "i < int (length arr)" for i
      using that "1.prems" True by (auto simp: a1_def nth_list_update)
    from "1.IH" [OF _ rdr _ w] True "1.prems" len1 obtain arr' r' where
      rec: "ins_shift a1 L swap (r - 1) = Some (arr', r')" "length arr' = length a1"
        "L - 1 \<le> r'" "r' \<le> r - 1"
        "mset (arr'[nat (r' + 1) := swap]) = mset (a1[nat (r - 1 + 1) := swap])"
        "\<forall>i. 0 \<le> i \<and> i < int (length a1) \<and> (i \<le> r' \<or> r - 1 + 1 < i) \<longrightarrow>
           arr' ! nat i = a1 ! nat i"
        "\<forall>i. r' + 1 < i \<and> i \<le> r - 1 + 1 \<longrightarrow>
           arr' ! nat i = a1 ! nat (i - 1) \<and> dlt swap (a1 ! nat (i - 1))"
        "L \<le> r' \<longrightarrow> \<not> dlt swap (a1 ! nat r')"
      by auto
    have res: "ins_shift arr L swap r = Some (arr', r')"
      using step True rdr w rec(1) by simp
    have ms: "mset (arr'[nat (r' + 1) := swap]) = mset (arr[nat (r + 1) := swap])"
    proof -
      define b where "b = arr[nat (r + 1) := swap]"
      have nr: "nat r < length b" "nat (r + 1) < length b" "nat r \<noteq> nat (r + 1)"
        using "1.prems" True by (auto simp: b_def)
      have "a1[nat r := swap] = b[nat (r + 1) := b ! nat r, nat r := b ! nat (r + 1)]"
        using nr by (simp add: a1_def b_def)
      also have "mset \<dots> = mset b"
        using mset_swap [of "nat r" b "nat (r + 1)"] nr by simp
      finally show ?thesis using rec(5) by (simp add: b_def)
    qed
    have frame: "\<forall>i. 0 \<le> i \<and> i < int (length arr) \<and> (i \<le> r' \<or> r + 1 < i) \<longrightarrow>
           arr' ! nat i = arr ! nat i"
    proof (intro allI impI)
      fix i assume i: "0 \<le> i \<and> i < int (length arr) \<and> (i \<le> r' \<or> r + 1 < i)"
      have "arr' ! nat i = a1 ! nat i" using rec(6) i rec(4) len1 by auto
      also have "\<dots> = arr ! nat i" using nth1 [of i] i rec(4) by auto
      finally show "arr' ! nat i = arr ! nat i" .
    qed
    have shifted: "\<forall>i. r' + 1 < i \<and> i \<le> r + 1 \<longrightarrow>
           arr' ! nat i = arr ! nat (i - 1) \<and> dlt swap (arr ! nat (i - 1))"
    proof (intro allI impI)
      fix i assume i: "r' + 1 < i \<and> i \<le> r + 1"
      show "arr' ! nat i = arr ! nat (i - 1) \<and> dlt swap (arr ! nat (i - 1))"
      proof (cases "i = r + 1")
        case True
        have "arr' ! nat i = a1 ! nat i" using rec(6) True "1.prems" len1 rec(3) by auto
        also have "\<dots> = ?x" using nth1 [of i] True "1.prems" by auto
        finally show ?thesis using True \<open>r \<ge> L \<and> dlt swap (arr ! nat r)\<close> by simp
      next
        case False
        then have i': "r' + 1 < i \<and> i \<le> r - 1 + 1" using i by auto
        have "a1 ! nat (i - 1) = arr ! nat (i - 1)"
          using nth1 [of "i - 1"] i rec(3) "1.prems" by auto
        with rec(7) i' show ?thesis by auto
      qed
    qed
    have stop: "L \<le> r' \<longrightarrow> \<not> dlt swap (arr ! nat r')"
    proof
      assume "L \<le> r'"
      moreover have "a1 ! nat r' = arr ! nat r'"
        using nth1 [of r'] rec(3,4) "1.prems" \<open>L \<le> r'\<close> by auto
      ultimately show "\<not> dlt swap (arr ! nat r')" using rec(8) by simp
    qed
    show ?thesis using res rec(2,3,4) len1 ms frame shifted stop by auto
  qed
qed

lemma ins_loop_spec:
  "0 \<le> L \<Longrightarrow> L < l \<Longrightarrow> R < int (length arr) \<Longrightarrow>
   \<exists>s. ins_loop arr L R l = Some s \<and> length s = length arr \<and> mset s = mset arr \<and>
       same_outside s arr L R \<and>
       (nanfree_on arr L R \<and> sorted_on arr L (l - 1) \<longrightarrow> sorted_on s L R)"
proof (induction arr L R l rule: ins_loop.induct)
  case (1 arr L R l)
  note step = ins_loop.simps [of arr L R l]
  show ?case
  proof (cases "l \<le> R")
    case False
    then have "ins_loop arr L R l = Some arr" using step by simp
    moreover have "sorted_on arr L (l - 1) \<Longrightarrow> sorted_on arr L R"
      using False by (auto simp: sorted_on_def)
    ultimately show ?thesis by (auto simp: same_outside_def)
  next
    case True
    let ?swap = "arr ! nat l"
    have rdl: "rd arr l = Some ?swap"
      using "1.prems" True by (auto intro!: rd_Some simp: in_bounds_def)
    from ins_shift_spec [of L "l - 1" arr ?swap] "1.prems" True obtain arr1 r where
      sh: "ins_shift arr L ?swap (l - 1) = Some (arr1, r)" "length arr1 = length arr"
        "L - 1 \<le> r" "r \<le> l - 1"
        "mset (arr1[nat (r + 1) := ?swap]) = mset (arr[nat (l - 1 + 1) := ?swap])"
        "\<forall>i. 0 \<le> i \<and> i < int (length arr) \<and> (i \<le> r \<or> l - 1 + 1 < i) \<longrightarrow>
           arr1 ! nat i = arr ! nat i"
        "\<forall>i. r + 1 < i \<and> i \<le> l - 1 + 1 \<longrightarrow>
           arr1 ! nat i = arr ! nat (i - 1) \<and> dlt ?swap (arr ! nat (i - 1))"
        "L \<le> r \<longrightarrow> \<not> dlt ?swap (arr ! nat r)"
      by auto
    define arr2 where "arr2 = arr1[nat (r + 1) := ?swap]"
    have ib: "in_bounds arr1 (r + 1)"
      using "1.prems" True sh(2,3,4) by (auto simp: in_bounds_def)
    have w: "wr arr1 (r + 1) ?swap = Some arr2"
      unfolding arr2_def by (rule wr_Some [OF ib])
    have len2: "length arr2 = length arr" by (simp add: arr2_def sh(2))
    have ms2: "mset arr2 = mset arr" using sh(5) by (simp add: arr2_def)
    have nth2: "arr2 ! nat i =
        (if i \<le> r then arr ! nat i else if i = r + 1 then ?swap
         else if i \<le> l then arr ! nat (i - 1) else arr ! nat i)"
      if i: "0 \<le> i" "i < int (length arr)" for i
    proof -
      from i consider "i \<le> r" | "i = r + 1" | "r + 1 < i" "i \<le> l" | "l < i" by linarith
      then show ?thesis
      proof cases
        case 1
        then have "arr2 ! nat i = arr1 ! nat i" using i sh(3) "1.prems" by (auto simp: arr2_def)
        with 1 sh(6) i show ?thesis by auto
      next
        case 2
        then show ?thesis using ib by (auto simp: arr2_def in_bounds_def)
      next
        case 3
        then have "arr2 ! nat i = arr1 ! nat i" using i sh(3) "1.prems" by (auto simp: arr2_def)
        with 3 sh(7) show ?thesis by auto
      next
        case 4
        then have "arr2 ! nat i = arr1 ! nat i" using i sh(3,4) "1.prems" by (auto simp: arr2_def)
        with 4 sh(4,6) i show ?thesis by auto
      qed
    qed
    from "1.IH" [OF True rdl sh(1) _ w] "1.prems" len2 obtain s where
      rec: "ins_loop arr2 L R (l + 1) = Some s" "length s = length arr2" "mset s = mset arr2"
        "same_outside s arr2 L R"
        "nanfree_on arr2 L R \<and> sorted_on arr2 L (l + 1 - 1) \<longrightarrow> sorted_on s L R"
      by auto
    have res: "ins_loop arr L R l = Some s"
      using step True rdl sh(1) w rec(1) by simp
    have frame: "same_outside s arr L R"
      unfolding same_outside_def
    proof (intro allI impI)
      fix i assume i: "0 \<le> i \<and> i < int (length arr) \<and> (i < L \<or> R < i)"
      have "s ! nat i = arr2 ! nat i" using rec(4) i len2 by (auto simp: same_outside_def)
      also have "\<dots> = arr ! nat i" using nth2 [of i] i sh(3,4) True by auto
      finally show "s ! nat i = arr ! nat i" .
    qed
    have ord: "sorted_on s L R" if nf: "nanfree_on arr L R" and so: "sorted_on arr L (l - 1)"
    proof -
      have inb: "0 \<le> i \<and> i < int (length arr)" if "L \<le> i" "i \<le> R" for i
        using that "1.prems" by auto
      have nf2: "nanfree_on arr2 L R"
        unfolding nanfree_on_def
      proof (intro allI impI)
        fix i assume i: "L \<le> i \<and> i \<le> R"
        have "L \<le> i - 1" if "r + 1 < i" using that sh(3) by auto
        moreover have "\<not> isnan (arr ! nat l)"
          using nf True "1.prems" by (auto simp: nanfree_on_def)
        ultimately show "\<not> isnan (arr2 ! nat i)"
          using nth2 [of i] inb [of i] i nf True sh(4) by (auto simp: nanfree_on_def)
      qed
      have nsw: "\<not> isnan ?swap" using nf True "1.prems" by (auto simp: nanfree_on_def)
      have so2: "sorted_on arr2 L l"
        unfolding sorted_on_def
      proof (intro allI impI)
        fix i j assume ij: "L \<le> i \<and> i < j \<and> j \<le> l"
        have bi: "0 \<le> i" "i < int (length arr)" and bj: "0 \<le> j" "j < int (length arr)"
          using ij "1.prems" True by auto
        have old: "dle (arr ! nat a) (arr ! nat b)" if "L \<le> a" "a < b" "b \<le> l - 1" for a b
          using so that by (auto simp: sorted_on_def)
        from ij consider (a) "j \<le> r" | (b) "i \<le> r" "j = r + 1" | (c) "i \<le> r" "r + 1 < j"
          | (d) "i = r + 1" | (e) "r + 1 < i" by linarith
        then show "dle (arr2 ! nat i) (arr2 ! nat j)"
        proof cases
          case a
          then show ?thesis using nth2 [OF bi] nth2 [OF bj] ij old [of i j] sh(4) by auto
        next
          case b
          have "dle (arr ! nat r) ?swap"
            using sh(8) b ij nsw nf "1.prems" True sh(4)
            by (auto intro!: not_dlt_dle simp: nanfree_on_def)
          moreover have "dle (arr ! nat i) (arr ! nat r)"
          proof (cases "i = r")
            case True
            then show ?thesis using nf ij sh(4) \<open>l \<le> R\<close> by (auto intro!: dle_refl simp: nanfree_on_def)
          next
            case False
            then show ?thesis using old [of i r] b ij sh(4) by auto
          qed
          ultimately have "dle (arr ! nat i) ?swap" by (rule dle_trans [rotated])
          then show ?thesis using nth2 [OF bi] nth2 [OF bj] b by auto
        next
          case c
          then show ?thesis using nth2 [OF bi] nth2 [OF bj] ij old [of i "j - 1"] by auto
        next
          case d
          then have "dlt ?swap (arr ! nat (j - 1))" using sh(7) ij by auto
          then show ?thesis using nth2 [OF bi] nth2 [OF bj] d ij by (auto intro: dlt_dle)
        next
          case e
          then show ?thesis
            using nth2 [OF bi] nth2 [OF bj] ij old [of "i - 1" "j - 1"] sh(3) by auto
        qed
      qed
      from rec(5) nf2 so2 show ?thesis by simp
    qed
    show ?thesis using res rec(2,3) len2 ms2 frame ord by auto
  qed
qed


section \<open>Slices\<close>

lemma length_slice:
  "0 \<le> L \<Longrightarrow> R < int (length a) \<Longrightarrow> length (slice a L R) = nat (R + 1 - L)"
  by (auto simp: slice_def)

lemma nth_slice:
  "0 \<le> L \<Longrightarrow> R < int (length a) \<Longrightarrow> k < nat (R + 1 - L) \<Longrightarrow>
   slice a L R ! k = a ! nat (L + int k)"
  by (auto simp: slice_def nat_add_distrib)

lemma set_slice:
  assumes "0 \<le> L" "R < int (length a)"
  shows "set (slice a L R) = {a ! nat i | i. L \<le> i \<and> i \<le> R}"
proof (intro set_eqI iffI)
  fix x assume "x \<in> set (slice a L R)"
  then obtain k where k: "k < length (slice a L R)" "x = slice a L R ! k"
    by (auto simp: in_set_conv_nth)
  then have "k < nat (R + 1 - L)" using length_slice [OF assms] by simp
  with k nth_slice [OF assms, of k] have "x = a ! nat (L + int k)" "L \<le> L + int k" "L + int k \<le> R"
    by auto
  then show "x \<in> {a ! nat i | i. L \<le> i \<and> i \<le> R}" by blast
next
  fix x assume "x \<in> {a ! nat i | i. L \<le> i \<and> i \<le> R}"
  then obtain i where i: "x = a ! nat i" "L \<le> i" "i \<le> R" by auto
  define k where "k = nat (i - L)"
  have kl: "k < nat (R + 1 - L)" using i by (auto simp: k_def)
  have "slice a L R ! k = a ! nat (L + int k)" by (rule nth_slice [OF assms kl])
  also have "L + int k = i" using i by (simp add: k_def)
  finally have "x = slice a L R ! k" using i by simp
  moreover have "k < length (slice a L R)" using kl length_slice [OF assms] by simp
  ultimately show "x \<in> set (slice a L R)" by (auto simp: in_set_conv_nth)
qed

lemma slice_decomp:
  assumes "0 \<le> L" "L \<le> R + 1"
  shows "a = take (nat L) a @ slice a L R @ drop (nat (R + 1)) a"
proof -
  have n: "nat (R + 1 - L) + nat L = nat (R + 1)" using assms by auto
  have e: "drop (nat (R + 1 - L)) (drop (nat L) a) = drop (nat (R + 1)) a"
    by (simp only: drop_drop n)
  have "slice a L R @ drop (nat (R + 1)) a = drop (nat L) a"
    unfolding slice_def e [symmetric] by (rule append_take_drop_id)
  then show ?thesis by simp
qed

lemma slice_full: "slice s 0 (int (length s) - 1) = s"
  by (simp add: slice_def)

lemma same_outsideD:
  "same_outside a b L R \<Longrightarrow> 0 \<le> i \<Longrightarrow> i < int (length b) \<Longrightarrow> i < L \<or> R < i \<Longrightarrow>
   a ! nat i = b ! nat i"
  by (simp add: same_outside_def)

lemma same_outside_take:
  assumes "length a = length b" "same_outside a b L R" "0 \<le> L"
  shows "take (nat L) a = take (nat L) b"
proof (rule nth_equalityI)
  show "length (take (nat L) a) = length (take (nat L) b)" using assms by simp
next
  fix k assume "k < length (take (nat L) a)"
  then have k: "k < nat L" "k < length b" using assms by auto
  have "a ! nat (int k) = b ! nat (int k)"
    by (rule same_outsideD [OF assms(2)]) (use k in auto)
  with k show "take (nat L) a ! k = take (nat L) b ! k" by simp
qed

lemma same_outside_drop:
  assumes "length a = length b" "same_outside a b L R" "-1 \<le> R"
  shows "drop (nat (R + 1)) a = drop (nat (R + 1)) b"
proof (rule nth_equalityI)
  show "length (drop (nat (R + 1)) a) = length (drop (nat (R + 1)) b)" using assms by simp
next
  fix k assume "k < length (drop (nat (R + 1)) a)"
  then have k: "nat (R + 1) + k < length b" using assms by auto
  have "a ! nat (int (nat (R + 1) + k)) = b ! nat (int (nat (R + 1) + k))"
    by (rule same_outsideD [OF assms(2)]) (use k assms(3) in auto)
  then have "a ! (nat (R + 1) + k) = b ! (nat (R + 1) + k)" by (simp only: nat_int)
  with k assms(1) show "drop (nat (R + 1)) a ! k = drop (nat (R + 1)) b ! k" by simp
qed

lemma mset_slice_eq:
  assumes "length a = length b" "mset a = mset b" "same_outside a b L R"
    "0 \<le> L" "L \<le> R + 1"
  shows "mset (slice a L R) = mset (slice b L R)"
proof -
  have "mset a = mset (take (nat L) a @ slice a L R @ drop (nat (R + 1)) a)"
    using slice_decomp [OF assms(4,5), of a] by simp
  then have ma: "mset a = mset (take (nat L) a) + mset (slice a L R) + mset (drop (nat (R + 1)) a)"
    by simp
  have "mset b = mset (take (nat L) b @ slice b L R @ drop (nat (R + 1)) b)"
    using slice_decomp [OF assms(4,5), of b] by simp
  then have mb: "mset b = mset (take (nat L) b) + mset (slice b L R) + mset (drop (nat (R + 1)) b)"
    by simp
  have t: "take (nat L) a = take (nat L) b"
    by (rule same_outside_take [OF assms(1,3,4)])
  have d: "drop (nat (R + 1)) a = drop (nat (R + 1)) b"
    by (rule same_outside_drop [OF assms(1,3)]) (use assms(4,5) in simp)
  from assms(2) ma mb t d show ?thesis by simp
qed

lemma range_transfer:
  assumes "length a = length b" "mset a = mset b" "same_outside a b L R"
    "0 \<le> L" "R < int (length b)"
    "\<forall>i. L \<le> i \<and> i \<le> R \<longrightarrow> P (b ! nat i)"
  shows "\<forall>i. L \<le> i \<and> i \<le> R \<longrightarrow> P (a ! nat i)"
proof (intro allI impI)
  fix i assume i: "L \<le> i \<and> i \<le> R"
  then have "L \<le> R + 1" by simp
  from mset_slice_eq [OF assms(1,2,3,4) this] have "set (slice a L R) = set (slice b L R)"
    by (rule mset_eq_setD)
  moreover have "a ! nat i \<in> set (slice a L R)"
    using set_slice [of L R a] assms(1,4,5) i by auto
  ultimately have "a ! nat i \<in> set (slice b L R)" by simp
  then obtain j where "a ! nat i = b ! nat j" "L \<le> j \<and> j \<le> R"
    using set_slice [of L R b] assms(4,5) by auto
  with assms(6) show "P (a ! nat i)" by auto
qed

lemma sorted_on_slice:
  assumes "0 \<le> L" "R < int (length a)"
  shows "sorted_on a L R = sorted_wrt dle (slice a L R)"
proof
  assume so: "sorted_on a L R"
  show "sorted_wrt dle (slice a L R)"
    unfolding sorted_wrt_iff_nth_less
  proof (intro allI impI)
    fix i j assume ij: "i < j" "j < length (slice a L R)"
    then have j: "j < nat (R + 1 - L)" using length_slice [OF assms] by simp
    with ij have i: "i < nat (R + 1 - L)" by simp
    have "dle (a ! nat (L + int i)) (a ! nat (L + int j))"
      using so ij(1) j by (auto simp: sorted_on_def)
    then show "dle (slice a L R ! i) (slice a L R ! j)"
      using nth_slice [OF assms i] nth_slice [OF assms j] by simp
  qed
next
  assume sw: "sorted_wrt dle (slice a L R)"
  show "sorted_on a L R"
    unfolding sorted_on_def
  proof (intro allI impI)
    fix i j assume ij: "L \<le> i \<and> i < j \<and> j \<le> R"
    define i' j' where "i' = nat (i - L)" and "j' = nat (j - L)"
    have b: "i' < j'" "j' < nat (R + 1 - L)" "i' < nat (R + 1 - L)"
      using ij by (auto simp: i'_def j'_def)
    then have "dle (slice a L R ! i') (slice a L R ! j')"
      using sw length_slice [OF assms] by (auto simp: sorted_wrt_iff_nth_less)
    moreover have "L + int i' = i" "L + int j' = j" using ij by (auto simp: i'_def j'_def)
    ultimately show "dle (a ! nat i) (a ! nat j)"
      using nth_slice [OF assms b(3)] nth_slice [OF assms b(2)] by simp
  qed
qed

lemma nanfree_on_slice:
  assumes "0 \<le> L" "R < int (length a)"
  shows "nanfree_on a L R = (\<forall>x\<in>set (slice a L R). \<not> isnan x)"
  unfolding nanfree_on_def set_slice [OF assms] by auto




section \<open>rc\_sort as a whole\<close>

lemma rc_sort_short: "R \<le> L \<Longrightarrow> rc_sort arr L R = Some arr"
  by (simp add: rc_sort.simps [of arr L R] ins_loop.simps [of arr L R "L + 1"])

lemma rc_sort_spec:
  "0 \<le> L \<Longrightarrow> R < int (length arr) \<Longrightarrow>
   \<exists>s. rc_sort arr L R = Some s \<and> length s = length arr \<and> mset s = mset arr \<and>
       same_outside s arr L R \<and> (nanfree_on arr L R \<longrightarrow> sorted_on s L R)"
proof (induction arr L R rule: rc_sort.induct)
  case (1 arr L R)
  note step = rc_sort.simps [of arr L R]
  show ?case
  proof (cases "R - L > 25")
    case False
    have "sorted_on arr L (L + 1 - 1)" by (auto simp: sorted_on_def)
    with ins_loop_spec [of L "L + 1" R arr] "1.prems" step False show ?thesis by auto
  next
    case True
    then have LR: "L < R" by simp
    from qs_partition_spec [OF "1.prems"(1) LR "1.prems"(2)] obtain a2 l where
      qp: "qs_partition arr L R = Some (a2, l)" "L \<le> l" "l \<le> R"
        "length a2 = length arr" "mset a2 = mset arr"
        "\<forall>i. 0 \<le> i \<and> i < int (length arr) \<and> (i < L \<or> R < i) \<longrightarrow> a2 ! nat i = arr ! nat i"
        "a2 ! nat l = arr ! nat R"
        "(\<forall>i. L \<le> i \<and> i \<le> R \<longrightarrow> \<not> isnan (arr ! nat i)) \<longrightarrow>
         (\<forall>i. L \<le> i \<and> i < l \<longrightarrow> dle (a2 ! nat i) (a2 ! nat l)) \<and>
         (\<forall>i. l < i \<and> i \<le> R \<longrightarrow> dle (a2 ! nat l) (a2 ! nat i))"
      by blast
    have so2: "same_outside a2 arr L R" using qp(6) by (simp add: same_outside_def)
    from "1.IH"(1) [OF True qp(1) refl "1.prems"(1)] qp(3,4) "1.prems"(2) obtain a3 where
      r1: "rc_sort a2 L (l - 1) = Some a3" "length a3 = length a2" "mset a3 = mset a2"
        "same_outside a3 a2 L (l - 1)" "nanfree_on a2 L (l - 1) \<longrightarrow> sorted_on a3 L (l - 1)"
      by auto
    from "1.IH"(2) [OF True qp(1) refl r1(1)] qp(2,4) r1(2) "1.prems" obtain s where
      r2: "rc_sort a3 (l + 1) R = Some s" "length s = length a3" "mset s = mset a3"
        "same_outside s a3 (l + 1) R" "nanfree_on a3 (l + 1) R \<longrightarrow> sorted_on s (l + 1) R"
      by auto
    have res: "rc_sort arr L R = Some s" using step True qp(1) r1(1) r2(1) by simp
    have len: "length s = length arr" using r2(2) r1(2) qp(4) by simp
    have ms: "mset s = mset arr" using r2(3) r1(3) qp(5) by simp
    have s_a3: "s ! nat i = a3 ! nat i" if "0 \<le> i" "i < int (length arr)" "i \<le> l \<or> R < i" for i
      by (rule same_outsideD [OF r2(4)]) (use that r1(2) qp(4) in auto)
    have a3_a2: "a3 ! nat i = a2 ! nat i" if "0 \<le> i" "i < int (length arr)" "i < L \<or> l \<le> i" for i
      by (rule same_outsideD [OF r1(4)]) (use that qp(4) in auto)
    have frame: "same_outside s arr L R"
      unfolding same_outside_def
    proof (intro allI impI)
      fix i assume i: "0 \<le> i \<and> i < int (length arr) \<and> (i < L \<or> R < i)"
      have "s ! nat i = a3 ! nat i" using s_a3 [of i] i qp(2) by auto
      also have "\<dots> = a2 ! nat i" using a3_a2 [of i] i qp(3) by auto
      also have "\<dots> = arr ! nat i" using qp(6) i by auto
      finally show "s ! nat i = arr ! nat i" .
    qed
    have ord: "sorted_on s L R" if nf: "nanfree_on arr L R"
    proof -
      let ?p = "a2 ! nat l"
      have nf2: "\<forall>i. L \<le> i \<and> i \<le> R \<longrightarrow> \<not> isnan (a2 ! nat i)"
        by (rule range_transfer [OF qp(4,5) so2 "1.prems"])
           (use nf in \<open>simp add: nanfree_on_def\<close>)
      from qp(8) nf have
        lo2: "\<forall>i. L \<le> i \<and> i \<le> l - 1 \<longrightarrow> dle (a2 ! nat i) ?p" and
        hi2: "\<forall>i. l < i \<and> i \<le> R \<longrightarrow> dle ?p (a2 ! nat i)"
        by (auto simp: nanfree_on_def)
      have bl: "l - 1 < int (length a2)" using qp(3,4) "1.prems" by simp
      have lo3: "\<forall>i. L \<le> i \<and> i \<le> l - 1 \<longrightarrow> dle (a3 ! nat i) ?p"
        by (rule range_transfer [OF r1(2,3,4) "1.prems"(1) bl lo2])
      have so3: "sorted_on a3 L (l - 1)"
        using r1(5) nf2 qp(3) by (auto simp: nanfree_on_def)
      have hi3: "\<forall>i. l + 1 \<le> i \<and> i \<le> R \<longrightarrow> dle ?p (a3 ! nat i)"
      proof (intro allI impI)
        fix i assume i: "l + 1 \<le> i \<and> i \<le> R"
        then have "a3 ! nat i = a2 ! nat i" using a3_a2 [of i] qp(2) "1.prems" by auto
        with hi2 i show "dle ?p (a3 ! nat i)" by auto
      qed
      have l0: "0 \<le> l + 1" using qp(2) "1.prems" by simp
      have bR: "R < int (length a3)" using r1(2) qp(4) "1.prems" by simp
      have hi: "\<forall>i. l + 1 \<le> i \<and> i \<le> R \<longrightarrow> dle ?p (s ! nat i)"
        by (rule range_transfer [OF r2(2,3,4) l0 bR hi3])
      have "nanfree_on a3 (l + 1) R"
        unfolding nanfree_on_def using hi3 by (auto simp: dle_def)
      with r2(5) have sos: "sorted_on s (l + 1) R" by simp
      have sl: "s ! nat l = ?p"
        using s_a3 [of l] a3_a2 [of l] qp(2,3) "1.prems" by auto
      have slo: "s ! nat i = a3 ! nat i" if "L \<le> i" "i < l" for i
        using s_a3 [of i] that qp(3) "1.prems" by auto
      show ?thesis
        unfolding sorted_on_def
      proof (intro allI impI)
        fix i j assume ij: "L \<le> i \<and> i < j \<and> j \<le> R"
        from ij consider (a) "j < l" | (b) "i < l" "j = l" | (c) "i < l" "l < j"
          | (d) "i = l" | (e) "l < i" by linarith
        then show "dle (s ! nat i) (s ! nat j)"
        proof cases
          case a
          then show ?thesis using slo [of i] slo [of j] so3 ij by (auto simp: sorted_on_def)
        next
          case b
          then show ?thesis using slo [of i] sl lo3 ij by auto
        next
          case c
          have "dle (s ! nat i) ?p" using slo [of i] lo3 ij c by auto
          moreover have "dle ?p (s ! nat j)" using hi ij c by auto
          ultimately show ?thesis by (rule dle_trans)
        next
          case d
          then show ?thesis using sl hi ij by auto
        next
          case e
          then show ?thesis using sos ij by (auto simp: sorted_on_def)
        qed
      qed
    qed
    show ?thesis using res len ms frame ord by auto
  qed
qed

lemma sort_single: "rc_sort [x] 0 0 = Some [x]"
  by (simp add: rc_sort_short)

lemma sort_pair: "rc_sort [a, b] 0 1 = Some (if dlt b a then [b, a] else [a, b])"
  by (simp add: rc_sort.simps ins_loop.simps ins_shift.simps rd_def wr_def in_bounds_def)

section \<open>Agreement of the two models of rc\_sort\<close>

lemma rc_sort_int_Inr: "rc_sort_int arr L R = Inr s \<Longrightarrow> rc_sort arr L R = Some s"
proof (induction arr L R arbitrary: s rule: rc_sort_int.induct)
  case (1 arr L R)
  note step = rc_sort_int.simps [of arr L R] and ustep = rc_sort.simps [of arr L R]
  from "1.prems" step have k: "int_ok (R - L)"
    by (auto simp: ck_Inr_iff split: sum.splits)
  note c = ck_ok [OF k]
  show ?case
  proof (cases "R - L > 25")
    case False
    with "1.prems" step c obtain l0 where "ins_loop_c arr L R (L + 1) = Inr s"
      by (auto simp: ck_Inr_iff split: sum.splits)
    with False ustep ins_loop_c_Inr show ?thesis by simp
  next
    case True
    with "1.prems" step c obtain a2 l a3 where
      qp: "qs_partition_c arr L R = Inr (a2, l)" and k1: "int_ok (l - 1)"
      and r1: "rc_sort_int a2 L (l - 1) = Inr a3" and k2: "int_ok (l + 1)"
      and r2: "rc_sort_int a3 (l + 1) R = Inr s"
      by (auto simp: ck_Inr_iff split: sum.splits prod.splits)
    note c1 = ck_ok [OF k1] and c2 = ck_ok [OF k2]
    from "1.IH"(1) [OF c True qp refl c1 r1] have u1: "rc_sort a2 L (l - 1) = Some a3" .
    from "1.IH"(2) [OF c True qp refl c1 r1 c2 r2] have u2: "rc_sort a3 (l + 1) R = Some s" .
    from True qs_partition_c_Inr [OF qp] u1 u2 ustep show ?thesis by simp
  qed
qed


lemma in_bounds_int_ok: "in_bounds arr i \<Longrightarrow> int (length arr) \<le> INT_MAX \<Longrightarrow> int_ok i"
  by (simp add: in_bounds_def int_ok_def INT_MIN_def INT_MAX_def)

lemma in_bounds_int_ok_pred: "in_bounds arr i \<Longrightarrow> int (length arr) \<le> INT_MAX \<Longrightarrow> int_ok (i - 1)"
  by (simp add: in_bounds_def int_ok_def INT_MIN_def INT_MAX_def)

lemma in_bounds_int_ok_succ: "in_bounds arr i \<Longrightarrow> int (length arr) \<le> INT_MAX \<Longrightarrow> int_ok (i + 1)"
  by (simp add: in_bounds_def int_ok_def INT_MIN_def INT_MAX_def)

lemma rd_c_Some: "rd arr i = Some x \<Longrightarrow> rd_c arr i = Inr x"
  by (simp add: rd_c_def rd_def split: if_splits)

lemma wr_c_Some: "wr arr i v = Some a \<Longrightarrow> wr_c arr i v = Inr a"
  by (simp add: wr_c_def wr_def split: if_splits)

lemma rd_in_bounds: "rd arr i = Some x \<Longrightarrow> in_bounds arr i"
  by (simp add: rd_def split: if_splits)

lemma wr_in_bounds: "wr arr i v = Some a \<Longrightarrow> in_bounds arr i \<and> length a = length arr"
  by (auto simp: wr_def split: if_splits)

lemma swap_elems_c_Some: "swap_elems arr i j = Some a \<Longrightarrow> swap_elems_c arr i j = Inr a"
  by (auto simp: swap_elems_c_def swap_elems_def split: option.splits dest!: rd_c_Some wr_c_Some)

lemma swap_elems_length: "swap_elems arr i j = Some a \<Longrightarrow> length a = length arr"
  by (auto simp: swap_elems_def split: option.splits dest!: wr_in_bounds)

lemma scan_left_c_Some:
  "int (length arr) \<le> INT_MAX \<Longrightarrow> scan_left arr R l = Some l' \<Longrightarrow> scan_left_c arr R l = Inr l'"
proof (induction arr R l rule: scan_left.induct)
  case (1 arr R l)
  from "1.prems"(2) scan_left.simps [of arr R l] obtain x p where
    x: "rd arr (l + 1) = Some x" and p: "rd arr R = Some p"
    and res: "(if dlt x p then scan_left arr R (l + 1) else Some (l + 1)) = Some l'"
    by (auto split: option.splits)
  have c: "ck (l + 1) = Inr (l + 1)"
    by (rule ck_ok [OF in_bounds_int_ok [OF rd_in_bounds [OF x] "1.prems"(1)]])
  show ?case
  proof (cases "dlt x p")
    case True
    with res "1.IH" [OF x p True "1.prems"(1)] have "scan_left_c arr R (l + 1) = Inr l'" by simp
    with True c rd_c_Some [OF x] rd_c_Some [OF p] show ?thesis
      by (simp add: scan_left_c.simps [of arr R l])
  next
    case False
    with res c rd_c_Some [OF x] rd_c_Some [OF p] show ?thesis
      by (simp add: scan_left_c.simps [of arr R l])
  qed
qed

lemma scan_right_c_Some:
  "int (length arr) \<le> INT_MAX \<Longrightarrow> scan_right arr R l r = Some r' \<Longrightarrow>
   scan_right_c arr R l r = Inr r'"
proof (induction arr R l r rule: scan_right.induct)
  case (1 arr R l r)
  from "1.prems"(2) scan_right.simps [of arr R l r] obtain x p where
    x: "rd arr (r - 1) = Some x" and p: "rd arr R = Some p"
    and res: "(if dgt x p \<and> r - 1 > l then scan_right arr R l (r - 1) else Some (r - 1)) = Some r'"
    by (auto split: option.splits)
  have c: "ck (r - 1) = Inr (r - 1)"
    by (rule ck_ok [OF in_bounds_int_ok [OF rd_in_bounds [OF x] "1.prems"(1)]])
  show ?case
  proof (cases "dgt x p \<and> r - 1 > l")
    case True
    with res "1.IH" [OF x p True "1.prems"(1)] have "scan_right_c arr R l (r - 1) = Inr r'" by simp
    with True c rd_c_Some [OF x] rd_c_Some [OF p] show ?thesis
      by (simp add: scan_right_c.simps [of arr R l r])
  next
    case False
    with res c rd_c_Some [OF x] rd_c_Some [OF p] show ?thesis
      by (auto simp: scan_right_c.simps [of arr R l r])
  qed
qed

lemma part_loop_c_Some:
  "int (length arr) \<le> INT_MAX \<Longrightarrow> part_loop arr R l r = Some y \<Longrightarrow>
   part_loop_c arr R l r = Inr y"
proof (induction arr R l r rule: part_loop.induct)
  case (1 arr R l r)
  from "1.prems"(2) part_loop.simps [of arr R l r] obtain l1 r1 where
    l1: "scan_left arr R l = Some l1" and r1: "scan_right arr R l1 r = Some r1"
    and res: "(if l1 \<ge> r1 then Some (arr, l1)
               else (case swap_elems arr l1 r1 of None \<Rightarrow> None
                     | Some arr' \<Rightarrow> part_loop arr' R l1 r1)) = Some y"
    by (auto split: option.splits)
  note sl = scan_left_c_Some [OF "1.prems"(1) l1] and sr = scan_right_c_Some [OF "1.prems"(1) r1]
  show ?case
  proof (cases "l1 \<ge> r1")
    case True
    with res sl sr show ?thesis by (simp add: part_loop_c.simps [of arr R l r])
  next
    case False
    with res obtain a1 where sw: "swap_elems arr l1 r1 = Some a1"
      and rec: "part_loop a1 R l1 r1 = Some y"
      by (auto split: option.splits)
    have "int (length a1) \<le> INT_MAX" using swap_elems_length [OF sw] "1.prems"(1) by simp
    from "1.IH" [OF l1 r1 False sw this rec] False sl sr swap_elems_c_Some [OF sw]
    show ?thesis by (simp add: part_loop_c.simps [of arr R l r])
  qed
qed

lemma part_loop_first_read:
  "part_loop arr R l r = Some y \<Longrightarrow> in_bounds arr (l + 1)"
  using part_loop.simps [of arr R l r] scan_left.simps [of arr R l]
  by (auto split: option.splits dest: rd_in_bounds)

lemma qs_partition_c_Some:
  "int (length arr) \<le> INT_MAX \<Longrightarrow> qs_partition arr L R = Some y \<Longrightarrow>
   qs_partition_c arr L R = Inr y"
proof -
  assume len: "int (length arr) \<le> INT_MAX" and q: "qs_partition arr L R = Some y"
  from q obtain a1 l a2 where pl: "part_loop arr R (L - 1) R = Some (a1, l)"
    and sw: "swap_elems a1 l R = Some a2" and y: "y = (a2, l)"
    by (auto simp: qs_partition_def split: option.splits)
  from part_loop_first_read [OF pl] have "in_bounds arr L" by simp
  then have c: "ck (L - 1) = Inr (L - 1)"
    by (intro ck_ok in_bounds_int_ok_pred [OF _ len])
  show ?thesis
    using c part_loop_c_Some [OF len pl] swap_elems_c_Some [OF sw] y
    by (simp add: qs_partition_c_def)
qed

lemma ins_shift_c_Some:
  "int (length arr) \<le> INT_MAX \<Longrightarrow> ins_shift arr L swap r = Some y \<Longrightarrow>
   ins_shift_c arr L swap r = Inr y"
proof (induction arr L swap r rule: ins_shift.induct)
  case (1 arr L swap r)
  note step = ins_shift_c.simps [of arr L swap r] and ustep = ins_shift.simps [of arr L swap r]
  show ?case
  proof (cases "r \<ge> L")
    case False
    with "1.prems" step ustep show ?thesis by simp
  next
    case True
    with "1.prems"(2) ustep obtain x where x: "rd arr r = Some x" by (auto split: option.splits)
    show ?thesis
    proof (cases "dlt swap x")
      case False
      with True x "1.prems" step ustep rd_c_Some [OF x] show ?thesis by simp
    next
      case d: True
      with True x "1.prems"(2) ustep obtain a1 where
        w: "wr arr (r + 1) x = Some a1" and rec: "ins_shift a1 L swap (r - 1) = Some y"
        by (auto split: option.splits)
      have c1: "ck (r + 1) = Inr (r + 1)"
        using wr_in_bounds [OF w] "1.prems"(1) by (intro ck_ok in_bounds_int_ok) auto
      have c2: "ck (r - 1) = Inr (r - 1)"
        by (intro ck_ok in_bounds_int_ok_pred [OF rd_in_bounds [OF x] "1.prems"(1)])
      have "int (length a1) \<le> INT_MAX" using wr_in_bounds [OF w] "1.prems"(1) by simp
      from "1.IH" [OF True x d w this rec] True d rd_c_Some [OF x] wr_c_Some [OF w] c1 c2 step
      show ?thesis by simp
    qed
  qed
qed


lemma ins_shift_length:
  "ins_shift arr L swap r = Some (a, r') \<Longrightarrow> length a = length arr"
proof (induction arr L swap r rule: ins_shift.induct)
  case (1 arr L swap r)
  note ustep = ins_shift.simps [of arr L swap r]
  show ?case
  proof (cases "r \<ge> L")
    case False
    with "1.prems" ustep show ?thesis by simp
  next
    case True
    with "1.prems" ustep obtain x where x: "rd arr r = Some x" by (auto split: option.splits)
    show ?thesis
    proof (cases "dlt swap x")
      case False
      with True x "1.prems" ustep show ?thesis by simp
    next
      case d: True
      with True x "1.prems" ustep obtain a1 where
        w: "wr arr (r + 1) x = Some a1" and rec: "ins_shift a1 L swap (r - 1) = Some (a, r')"
        by (auto split: option.splits)
      from "1.IH" [OF True x d w rec] wr_in_bounds [OF w] show ?thesis by simp
    qed
  qed
qed

lemma ins_loop_c_Some:
  "int (length arr) \<le> INT_MAX \<Longrightarrow> ins_loop arr L R l = Some y \<Longrightarrow>
   ins_loop_c arr L R l = Inr y"
proof (induction arr L R l rule: ins_loop.induct)
  case (1 arr L R l)
  note step = ins_loop_c.simps [of arr L R l] and ustep = ins_loop.simps [of arr L R l]
  show ?case
  proof (cases "l \<le> R")
    case False
    with "1.prems" step ustep show ?thesis by simp
  next
    case True
    with "1.prems"(2) ustep obtain swap a1 r a2 where
      x: "rd arr l = Some swap" and sh: "ins_shift arr L swap (l - 1) = Some (a1, r)"
      and w: "wr a1 (r + 1) swap = Some a2" and rec: "ins_loop a2 L R (l + 1) = Some y"
      by (auto split: option.splits prod.splits)
    note len = "1.prems"(1)
    have l1: "length a1 = length arr" by (rule ins_shift_length [OF sh])
    have l2: "length a2 = length arr" using wr_in_bounds [OF w] l1 by simp
    have c0: "ck (l - 1) = Inr (l - 1)"
      by (intro ck_ok in_bounds_int_ok_pred [OF rd_in_bounds [OF x] len])
    have "in_bounds arr (r + 1)" using wr_in_bounds [OF w] l1 by (simp add: in_bounds_def)
    then have c1: "ck (r + 1) = Inr (r + 1)" by (intro ck_ok in_bounds_int_ok [OF _ len])
    have c2: "ck (l + 1) = Inr (l + 1)"
      by (intro ck_ok in_bounds_int_ok_succ [OF rd_in_bounds [OF x] len])
    have "int (length a2) \<le> INT_MAX" using l2 len by simp
    from "1.IH" [OF True x sh refl w this rec] True rd_c_Some [OF x]
      ins_shift_c_Some [OF len sh] wr_c_Some [OF w] c0 c1 c2 step
    show ?thesis by simp
  qed
qed

lemma rc_sort_int_Some:
  "0 \<le> L \<Longrightarrow> L \<le> R + 1 \<Longrightarrow> R < int (length arr) \<Longrightarrow> int (length arr) < INT_MAX \<Longrightarrow>
   rc_sort arr L R = Some s \<Longrightarrow> rc_sort_int arr L R = Inr s"
proof (induction arr L R arbitrary: s rule: rc_sort.induct)
  case (1 arr L R)
  note step = rc_sort_int.simps [of arr L R] and ustep = rc_sort.simps [of arr L R]
  note len = "1.prems"(4)
  have len': "int (length arr) \<le> INT_MAX" using len by simp
  have c: "ck (R - L) = Inr (R - L)"
    using "1.prems"(1-4) by (intro ck_ok) (simp add: int_ok_def INT_MIN_def INT_MAX_def)
  show ?case
  proof (cases "R - L > 25")
    case False
    have c0: "ck (L + 1) = Inr (L + 1)"
      using "1.prems"(1-4) by (intro ck_ok) (simp add: int_ok_def INT_MIN_def INT_MAX_def)
    from False "1.prems"(5) ustep have "ins_loop arr L R (L + 1) = Some s" by simp
    from ins_loop_c_Some [OF len' this] False c c0 step show ?thesis by simp
  next
    case True
    with "1.prems"(5) ustep obtain a2 l a3 where
      qp: "qs_partition arr L R = Some (a2, l)" and r1: "rc_sort a2 L (l - 1) = Some a3"
      and r2: "rc_sort a3 (l + 1) R = Some s"
      by (auto split: option.splits prod.splits)
    have LR: "L < R" using True by simp
    from qs_partition_bounds [OF qp] LR have lb: "L \<le> l" "l \<le> R" by auto
    from qs_partition_spec [OF "1.prems"(1) LR "1.prems"(3)] qp
    have l2: "length a2 = length arr" by auto
    have b1: "l - 1 < int (length a2)" using lb "1.prems"(3) l2 by simp
    from rc_sort_spec [OF "1.prems"(1) b1] r1 have l3: "length a3 = length arr"
      using l2 by auto
    have c1: "ck (l - 1) = Inr (l - 1)" and c2: "ck (l + 1) = Inr (l + 1)"
      using lb "1.prems"(1-4) by (auto intro!: ck_ok simp: int_ok_def INT_MIN_def INT_MAX_def)
    have i1: "rc_sort_int a2 L (l - 1) = Inr a3"
      by (rule "1.IH"(1) [OF True qp refl "1.prems"(1) _ b1 _ r1]) (use lb l2 len in auto)
    have i2: "rc_sort_int a3 (l + 1) R = Inr s"
      by (rule "1.IH"(2) [OF True qp refl r1 _ _ _ _ r2])
         (use lb l3 len "1.prems"(1,3) in auto)
    from True c qs_partition_c_Some [OF len' qp] c1 c2 i1 i2 step show ?thesis by simp
  qed
qed

text \<open>The empty ranges that the recursion and \<open>rc_logsumexp\<close> pass satisfy the
  conditions under which no operation on them overflows.\<close>

lemma empty_range_int_ok:
  "0 \<le> L \<Longrightarrow> L < INT_MAX \<Longrightarrow> -1 \<le> R \<Longrightarrow> R < L \<Longrightarrow>
   int_ok L \<and> int_ok R \<and> int_ok (R - L) \<and> int_ok (L + 1)"
  by (simp add: int_ok_def INT_MIN_def INT_MAX_def)

section \<open>rc\_logsumexp and the example platform\<close>

lemma sum_loop_spec:
  "0 \<le> i \<Longrightarrow> i \<le> len - 1 \<Longrightarrow> len \<le> int (length s) \<Longrightarrow>
   sum_loop F s len i acc =
     Some (foldl (lse_term F (s ! nat (len - 1))) acc (take (nat (len - 1 - i)) (drop (nat i) s)))"
proof (induction F s len i acc rule: sum_loop.induct)
  case (1 F s len i acc)
  note step = sum_loop.simps [of F s len i acc]
  show ?case
  proof (cases "i < len - 1")
    case False
    with "1.prems" have "len - 1 - i = 0" by simp
    with False step show ?thesis by simp
  next
    case True
    have ib: "in_bounds s i" "in_bounds s (len - 1)"
      using "1.prems" True by (auto simp: in_bounds_def)
    note rdi = rd_Some [OF ib(1)] and rdm = rd_Some [OF ib(2)]
    have il: "nat i < length s" using ib(1) by (rule in_bounds_nat)
    have n: "nat (len - 1 - i) = Suc (nat (len - 1 - (i + 1)))" using True by auto
    have d: "drop (nat i) s = s ! nat i # drop (nat (i + 1)) s"
      using Cons_nth_drop_Suc [OF il] "1.prems"(1) by (simp add: nat_add_distrib)
    let ?m = "s ! nat (len - 1)"
    let ?acc' = "fadd F acc (fexp F (fsub F (s ! nat i) ?m))"
    from "1.IH" [OF True rdi rdm] "1.prems" True
    have rec: "sum_loop F s len (i + 1) ?acc' =
        Some (foldl (lse_term F ?m) ?acc' (take (nat (len - 1 - (i + 1))) (drop (nat (i + 1)) s)))"
      by simp
    have a: "lse_term F ?m acc (s ! nat i) = ?acc'" by (simp add: lse_term_def)
    have e: "foldl (lse_term F ?m) acc (take (nat (len - 1 - i)) (drop (nat i) s)) =
        foldl (lse_term F ?m) ?acc' (take (nat (len - 1 - (i + 1))) (drop (nat (i + 1)) s))"
      unfolding n d by (simp only: take_Suc_Cons foldl_Cons a)
    have "sum_loop F s len i acc = sum_loop F s len (i + 1) ?acc'"
      using step True rdi rdm by simp
    then show ?thesis using rec e by simp
  qed
qed

lemma rc_logsumexp_spec:
  assumes "arr \<noteq> []"
  shows "\<exists>s. rc_sort arr 0 (int (length arr) - 1) = Some s \<and> length s = length arr \<and>
           mset s = mset arr \<and> ((\<forall>x\<in>set arr. \<not> isnan x) \<longrightarrow> sorted_wrt dle s) \<and>
           rc_logsumexp F arr (int (length arr)) =
             Some (s, if last s = NEG_INF then NEG_INF
                      else fadd F (last s)
                             (flog F (fadd F (foldl (lse_term F (last s)) POS_ZERO (butlast s)) ONE)))"
proof -
  let ?n = "int (length arr)"
  have b: "(0::int) \<le> 0" "?n - 1 < int (length arr)" by simp_all
  from rc_sort_spec [OF b] obtain s where
    s: "rc_sort arr 0 (?n - 1) = Some s" "length s = length arr" "mset s = mset arr"
      "nanfree_on arr 0 (?n - 1) \<longrightarrow> sorted_on s 0 (?n - 1)"
    by blast
  have ne: "s \<noteq> []" using s(2) assms by auto
  have srt: "sorted_wrt dle s" if "\<forall>x\<in>set arr. \<not> isnan x"
  proof -
    have "nanfree_on arr 0 (?n - 1)"
      using that nanfree_on_slice [OF b] slice_full [of arr] by simp
    with s(4) have "sorted_on s 0 (int (length s) - 1)" using s(2) by simp
    then show ?thesis
      using sorted_on_slice [of 0 "int (length s) - 1" s] slice_full [of s] by simp
  qed
  have ib: "in_bounds s (?n - 1)" using s(2) assms by (auto simp: in_bounds_def)
  have nn: "nat (?n - 1) = length s - 1" using s(2) by auto
  have lst: "s ! nat (?n - 1) = last s"
    unfolding nn using last_conv_nth [OF ne] by simp
  have rdm: "rd s (?n - 1) = Some (last s)" using rd_Some [OF ib] lst by simp
  have "take (nat (?n - 1 - 0)) (drop (nat 0) s) = butlast s"
    using nn by (simp add: butlast_conv_take)
  with sum_loop_spec [of 0 ?n s F POS_ZERO] s(2) assms lst
  have sl: "sum_loop F s ?n 0 POS_ZERO = Some (foldl (lse_term F (last s)) POS_ZERO (butlast s))"
    by (simp add: Suc_le_eq)
  have "rc_logsumexp F arr ?n =
      Some (s, if last s = NEG_INF then NEG_INF
               else fadd F (last s)
                      (flog F (fadd F (foldl (lse_term F (last s)) POS_ZERO (butlast s)) ONE)))"
    by (simp add: rc_logsumexp_def s(1) rdm deq_NEG_INF sl)
  with s(1,2,3) srt show ?thesis by blast
qed


lemma lse_single:
  "rc_logsumexp F [x] 1 =
     Some ([x], if x = NEG_INF then NEG_INF else fadd F x (flog F (fadd F POS_ZERO ONE)))"
  by (simp add: rc_logsumexp_def sort_single rd_def in_bounds_def deq_NEG_INF sum_loop.simps)

lemma lse_pair:
  "rc_logsumexp F [a, b] 2 =
     (let s = (if dlt b a then [b, a] else [a, b]); x = s ! 0; m = s ! 1 in
      Some (s, if m = NEG_INF then NEG_INF
               else fadd F m (flog F (fadd F (fadd F POS_ZERO (fexp F (fsub F x m))) ONE))))"
  by (simp add: rc_logsumexp_def sort_pair rd_def in_bounds_def deq_NEG_INF sum_loop.simps Let_def)

lemma ieee_facts_table: "ieee_facts fpu_table"
  unfolding ieee_facts_def fpu_table_def
  apply (simp add: table_add_def table_sub_def table_exp_def table_log_def zero_consts const_cmp)
  apply (intro conjI allI impI)
  apply (auto simp: zero_consts const_cmp finite_not_nan zero_finite dest: is_zero_cases)
  done

lemma zero_plus_log2:
  assumes "ieee_facts F" "is_zero z"
  shows "fadd F z (flog F TWO) = flog F TWO"
proof -
  let ?t = "flog F TWO"
  have t: "dlt POS_ZERO ?t" using assms(1) by (simp add: ieee_facts_def)
  then have tn: "\<not> isnan ?t" and tz: "\<not> is_zero ?t" "?t \<noteq> NEG_ZERO"
    using const_bits by (auto simp: dlt_def dkey_def is_zero_def split: if_splits)
  from is_zero_cases [OF assms(2)] show ?thesis
  proof
    assume "z = POS_ZERO"
    then show ?thesis using assms(1) tn tz by (simp add: ieee_facts_def)
  next
    assume "z = NEG_ZERO"
    then show ?thesis using assms(1) tn tz by (simp add: ieee_facts_def)
  qed
qed

lemma pair_of_zeros:
  assumes "ieee_facts F" "is_zero a" "is_zero b"
  shows "fadd F a (flog F (fadd F ONE (fexp F (fsub F b a)))) = flog F TWO"
proof -
  have "is_zero (fsub F b a)" using assms by (simp add: ieee_facts_def)
  then have "fexp F (fsub F b a) = ONE" using assms(1) by (simp add: ieee_facts_def)
  moreover have "fadd F ONE ONE = TWO" using assms(1) by (simp add: ieee_facts_def)
  ultimately show ?thesis using zero_plus_log2 [OF assms(1,2)] by simp
qed

lemma exp_term:
  assumes "ieee_facts F" "is_finite a" "is_finite b"
  shows "fadd F (fadd F POS_ZERO (fexp F (fsub F a b))) ONE = fadd F ONE (fexp F (fsub F a b))"
proof -
  let ?e = "fexp F (fsub F a b)"
  have "\<not> isnan (fsub F a b)" using assms by (simp add: ieee_facts_def)
  then have e: "\<not> isnan ?e" "?e \<noteq> NEG_ZERO" using assms(1) by (simp_all add: ieee_facts_def)
  then have "fadd F POS_ZERO ?e = ?e" using assms(1) by (simp add: ieee_facts_def)
  moreover have "fadd F ?e ONE = fadd F ONE ?e"
    using assms(1) e(1) const_cmp by (simp add: ieee_facts_def)
  ultimately show ?thesis by simp
qed

lemmas eval_partition = qs_partition_def part_loop.simps scan_left.simps scan_right.simps
  swap_elems_def rd_def wr_def in_bounds_def const_cmp dgt_def dlt_irrefl


section \<open>Claims\<close>








text \<open>
  C4. If the array is not empty and every element is \<open>-\<infinity>\<close>, \<open>rc_logsumexp\<close> returns
  \<open>-\<infinity>\<close>; \<open>rc_logsumexp_pair(-\<infinity>, -\<infinity>)\<close> is \<open>-\<infinity>\<close>. Both hold for every platform
  \<open>F\<close>, with no condition on what its \<open>exp\<close> and \<open>log\<close> return: the results do not
  pass through them. On a platform with the guarantees of \<open>ieee_facts\<close>,
  \<open>rc_logsumexp_pair(-\<infinity>, 5.0)\<close> is \<open>5.0\<close>, bit for bit.
\<close>

theorem neg_infinity_cases:
  "(arr \<noteq> [] \<and> (\<forall>x\<in>set arr. x = NEG_INF) \<longrightarrow>
      rc_logsumexp F arr (int (length arr)) = Some (arr, NEG_INF)) \<and>
   rc_logsumexp_pair F NEG_INF NEG_INF = NEG_INF \<and>
   (ieee_facts F \<longrightarrow> rc_logsumexp_pair F NEG_INF FIVE = FIVE)"
proof (intro conjI impI)
  assume a: "arr \<noteq> [] \<and> (\<forall>x\<in>set arr. x = NEG_INF)"
  from rc_logsumexp_spec [of arr F] a obtain s where
    s: "length s = length arr" "mset s = mset arr"
      "rc_logsumexp F arr (int (length arr)) =
         Some (s, if last s = NEG_INF then NEG_INF
                  else fadd F (last s)
                         (flog F (fadd F (foldl (lse_term F (last s)) POS_ZERO (butlast s)) ONE)))"
    by blast
  have all: "\<forall>x\<in>set s. x = NEG_INF" using mset_eq_setD [OF s(2)] a by simp
  have "s = arr"
  proof (rule nth_equalityI [OF s(1)])
    fix i assume "i < length s"
    then have m: "s ! i \<in> set s" "arr ! i \<in> set arr" using s(1) by auto
    have "s ! i = NEG_INF" by (rule bspec [OF all m(1)])
    moreover have "arr ! i = NEG_INF" by (rule bspec [OF conjunct2 [OF a] m(2)])
    ultimately show "s ! i = arr ! i" by simp
  qed
  moreover have "last s = NEG_INF" using all a s(1) by (metis last_in_set length_0_conv)
  ultimately show "rc_logsumexp F arr (int (length arr)) = Some (arr, NEG_INF)"
    using s(3) by simp
next
  show "rc_logsumexp_pair F NEG_INF NEG_INF = NEG_INF"
    by (simp add: rc_logsumexp_pair_def deq_NEG_INF)
next
  assume f: "ieee_facts F"
  have "fsub F NEG_INF FIVE = NEG_INF" using f zero_consts by (simp add: ieee_facts_def)
  moreover have "fexp F NEG_INF = POS_ZERO" using f by (simp add: ieee_facts_def)
  moreover have "fadd F ONE POS_ZERO = ONE" "fadd F FIVE POS_ZERO = FIVE"
    using f const_cmp zero_consts
    by (auto simp: ieee_facts_def dest: is_zero_cases)
  moreover have "flog F ONE = POS_ZERO" using f by (simp add: ieee_facts_def)
  ultimately show "rc_logsumexp_pair F NEG_INF FIVE = FIVE"
    by (simp add: rc_logsumexp_pair_def deq_NEG_INF dgt_def const_cmp zero_consts)
qed

theorem neg_infinity_cases_witness:
  "[NEG_INF, NEG_INF, NEG_INF] \<noteq> [] \<and>
   rc_logsumexp fpu_table [NEG_INF, NEG_INF, NEG_INF] 3 = Some ([NEG_INF, NEG_INF, NEG_INF], NEG_INF) \<and>
   rc_logsumexp_pair fpu_table NEG_INF NEG_INF = NEG_INF \<and>
   ieee_facts fpu_table \<and> rc_logsumexp_pair fpu_table NEG_INF FIVE = FIVE"
  using neg_infinity_cases [of "[NEG_INF, NEG_INF, NEG_INF]" fpu_table] ieee_facts_table
  by simp

text \<open>
  C5 as stated fails at \<open>x = -0.0\<close>: the result is \<open>-0.0 + log(0.0 + 1.0)\<close>, that is
  \<open>-0.0 + (+0.0)\<close>, which IEEE-754 defines as \<open>+0.0\<close>. The result compares equal to
  \<open>x\<close> but its sign bit differs.
\<close>

theorem single_element_neg_zero_counterexample:
  "ieee_facts fpu_table \<and> is_finite NEG_ZERO \<and>
   rc_logsumexp fpu_table [NEG_ZERO] 1 = Some ([NEG_ZERO], POS_ZERO) \<and> POS_ZERO \<noteq> NEG_ZERO \<and>
   \<not> (\<forall>F x. ieee_facts F \<longrightarrow> is_finite x \<longrightarrow> rc_logsumexp F [x] 1 = Some ([x], x))"
proof -
  have f: "fadd fpu_table POS_ZERO ONE = ONE" "flog fpu_table ONE = POS_ZERO"
    "fadd fpu_table NEG_ZERO POS_ZERO = POS_ZERO"
    using ieee_facts_table const_cmp zero_consts by (auto simp: ieee_facts_def)
  have ev: "rc_logsumexp fpu_table [NEG_ZERO] 1 = Some ([NEG_ZERO], POS_ZERO)"
    by (simp add: lse_single f zero_consts)
  have "\<not> (\<forall>F x. ieee_facts F \<longrightarrow> is_finite x \<longrightarrow> rc_logsumexp F [x] 1 = Some ([x], x))"
  proof
    assume "\<forall>F x. ieee_facts F \<longrightarrow> is_finite x \<longrightarrow> rc_logsumexp F [x] 1 = Some ([x], x)"
    then have "rc_logsumexp fpu_table [NEG_ZERO] 1 = Some ([NEG_ZERO], NEG_ZERO)"
      using ieee_facts_table zero_consts by blast
    with ev show False using zero_consts by simp
  qed
  with ev ieee_facts_table show ?thesis by (simp add: zero_consts)
qed

text \<open>
  C5, amended. On a platform with the guarantees of \<open>ieee_facts\<close>, for every finite
  \<open>x\<close> the call \<open>rc_logsumexp([x], 1)\<close> returns a value that compares equal to
  \<open>x\<close> (\<^verbatim>\<open>==\<close>); it is bit for bit \<open>x\<close> unless \<open>x\<close> is \<open>-0.0\<close>, for which it is
  \<open>+0.0\<close>.
\<close>

theorem single_element_result:
  assumes "ieee_facts F" "is_finite x"
  shows "rc_logsumexp F [x] 1 = Some ([x], if x = NEG_ZERO then POS_ZERO else x) \<and>
         deq (if x = NEG_ZERO then POS_ZERO else x) x"
proof -
  note nx = finite_not_nan [OF assms(2)] and ix = finite_not_neg_inf [OF assms(2)]
  have "fadd F POS_ZERO ONE = ONE" using assms(1) const_cmp zero_consts
    by (auto simp: ieee_facts_def)
  moreover have "flog F ONE = POS_ZERO" using assms(1) by (simp add: ieee_facts_def)
  moreover have "fadd F x POS_ZERO = (if x = NEG_ZERO then POS_ZERO else x)"
    using assms(1) nx by (auto simp: ieee_facts_def)
  moreover have "deq (if x = NEG_ZERO then POS_ZERO else x) x"
    using nx const_bits const_cmp by (auto simp: deq_def dkey_def)
  ultimately show ?thesis using ix by (simp add: lse_single)
qed

theorem single_element_result_witness:
  "ieee_facts fpu_table \<and> is_finite FIVE \<and> rc_logsumexp fpu_table [FIVE] 1 = Some ([FIVE], FIVE) \<and>
   is_finite NEG_ZERO \<and> deq POS_ZERO NEG_ZERO"
proof -
  have "FIVE \<noteq> NEG_ZERO" by (simp add: dbl_consts)
  with single_element_result [OF ieee_facts_table, of FIVE]
    single_element_result [OF ieee_facts_table, of NEG_ZERO] ieee_facts_table
  show ?thesis by (simp add: zero_consts)
qed

text \<open>
  C6. On a platform with the guarantees of \<open>ieee_facts\<close>, for all finite \<open>a\<close> and
  \<open>b\<close> the value \<open>rc_logsumexp([a, b], 2)\<close> returns is \<open>rc_logsumexp_pair(a, b)\<close>,
  bit for bit.
\<close>

theorem pair_agrees_with_array:
  assumes "ieee_facts F" "is_finite a" "is_finite b"
  shows "\<exists>s. rc_logsumexp F [a, b] 2 = Some (s, rc_logsumexp_pair F a b)"
proof -
  note na = finite_not_nan [OF assms(2)] and nb = finite_not_nan [OF assms(3)]
  note ia = finite_not_neg_inf [OF assms(2)] and ib = finite_not_neg_inf [OF assms(3)]
  consider (lt) "dlt a b" | (gt) "dlt b a" | (eq) "\<not> dlt a b" "\<not> dlt b a" by blast
  then show ?thesis
  proof cases
    case lt
    then have "\<not> dlt b a" by (auto simp: dlt_def)
    with lt show ?thesis
      using exp_term [OF assms] ia ib
      by (simp add: lse_pair rc_logsumexp_pair_def deq_NEG_INF dgt_def)
  next
    case gt
    then have "\<not> dlt a b" by (auto simp: dlt_def)
    with gt show ?thesis
      using exp_term [OF assms(1,3,2)] ia ib
      by (simp add: lse_pair rc_logsumexp_pair_def deq_NEG_INF dgt_def)
  next
    case eq
    then have d: "deq a b" using na nb by (auto simp: dlt_def deq_def)
    have arr: "rc_logsumexp F [a, b] 2 =
        Some ([a, b], fadd F b (flog F (fadd F ONE (fexp F (fsub F a b)))))"
      using eq exp_term [OF assms] ib by (simp add: lse_pair)
    have pr: "rc_logsumexp_pair F a b = fadd F a (flog F (fadd F ONE (fexp F (fsub F b a))))"
      using eq ia by (simp add: rc_logsumexp_pair_def deq_NEG_INF dgt_def)
    from deq_cases [OF d] show ?thesis
    proof
      assume "a = b"
      then show ?thesis using arr pr by simp
    next
      assume z: "is_zero a \<and> is_zero b"
      then show ?thesis
        using arr pr pair_of_zeros [OF assms(1), of a b] pair_of_zeros [OF assms(1), of b a]
        by simp
    qed
  qed
qed

theorem pair_agrees_with_array_witness:
  "ieee_facts fpu_table \<and> is_finite FIVE \<and> is_finite ONE \<and>
   rc_logsumexp fpu_table [FIVE, ONE] 2 = Some ([ONE, FIVE], rc_logsumexp_pair fpu_table FIVE ONE) \<and>
   is_finite POS_ZERO \<and> is_finite NEG_ZERO \<and>
   rc_logsumexp fpu_table [POS_ZERO, NEG_ZERO] 2 =
     Some ([POS_ZERO, NEG_ZERO], rc_logsumexp_pair fpu_table POS_ZERO NEG_ZERO)"
proof -
  from pair_agrees_with_array [OF ieee_facts_table, of FIVE ONE]
  have "rc_logsumexp fpu_table [FIVE, ONE] 2 = Some ([ONE, FIVE], rc_logsumexp_pair fpu_table FIVE ONE)"
    by (auto simp: lse_pair zero_consts const_cmp Let_def)
  moreover from pair_agrees_with_array [OF ieee_facts_table, of POS_ZERO NEG_ZERO]
  have "rc_logsumexp fpu_table [POS_ZERO, NEG_ZERO] 2 =
     Some ([POS_ZERO, NEG_ZERO], rc_logsumexp_pair fpu_table POS_ZERO NEG_ZERO)"
    by (auto simp: lse_pair zero_consts const_cmp Let_def)
  ultimately show ?thesis using ieee_facts_table by (simp add: zero_consts)
qed

text \<open>
  C7 as stated fails when the range holds a NaN: no comparison moves it to a side where
  the order with the pivot holds. Below, the partition puts the pivot \<open>2.0\<close> at index 13
  and leaves a NaN at index 25, and \<open>2.0 \<le> NaN\<close> is false.
\<close>

theorem qs_partition_nan_counterexample:
  "25 < (26::int) - 0 \<and> qs_partition c27 0 26 = Some (c27_partitioned, 13) \<and>
   c27_partitioned ! 13 = TWO \<and> c27_partitioned ! 25 = QNAN \<and> \<not> dle TWO QNAN \<and>
   \<not> list_all (\<lambda>x. dle (c27_partitioned ! 13) x) (slice c27_partitioned (13 + 1) 26)"
  by (simp add: c27_def c27_partitioned_def slice_def eval_partition)

text \<open>
  C7, amended. In the quicksort branch (\<open>R - L > 25\<close>) on a range inside the array: the
  loop ends with the element that was at \<open>R\<close> still at \<open>R\<close>; the element at the left
  cursor \<open>l\<close> is then swapped with it, so the pivot is at \<open>l\<close>, with \<open>L \<le> l \<le> R\<close>; the
  range is a permutation of what it was; \<open>rc_sort\<close> continues with exactly the calls on
  \<open>[L, l - 1]\<close> and \<open>[l + 1, R]\<close>. If no element of the range is a NaN, every element of
  \<open>[L, l - 1]\<close> is \<open>\<le>\<close> the pivot and every element of \<open>[l + 1, R]\<close> is \<open>\<ge>\<close> it.
\<close>

theorem qs_partition_pivot:
  assumes "0 \<le> L" "25 < R - L" "R < int (length arr)"
  shows "\<exists>a1 a2 l. part_loop arr R (L - 1) R = Some (a1, l) \<and> a1 ! nat R = arr ! nat R \<and>
           swap_elems a1 l R = Some a2 \<and> qs_partition arr L R = Some (a2, l) \<and>
           L \<le> l \<and> l \<le> R \<and> a2 ! nat l = arr ! nat R \<and>
           mset (slice a2 L R) = mset (slice arr L R) \<and>
           rc_sort arr L R =
             (case rc_sort a2 L (l - 1) of None \<Rightarrow> None | Some a3 \<Rightarrow> rc_sort a3 (l + 1) R) \<and>
           ((\<forall>x\<in>set (slice arr L R). \<not> isnan x) \<longrightarrow>
              (\<forall>x\<in>set (slice a2 L (l - 1)). dle x (a2 ! nat l)) \<and>
              (\<forall>x\<in>set (slice a2 (l + 1) R). dle (a2 ! nat l) x))"
proof -
  have LR: "L < R" using assms(2) by simp
  from qs_partition_spec [OF assms(1) LR assms(3)] obtain a2 l where
    qp: "qs_partition arr L R = Some (a2, l)" "L \<le> l" "l \<le> R"
      "length a2 = length arr" "mset a2 = mset arr"
      "\<forall>i. 0 \<le> i \<and> i < int (length arr) \<and> (i < L \<or> R < i) \<longrightarrow> a2 ! nat i = arr ! nat i"
      "a2 ! nat l = arr ! nat R"
      "(\<forall>i. L \<le> i \<and> i \<le> R \<longrightarrow> \<not> isnan (arr ! nat i)) \<longrightarrow>
       (\<forall>i. L \<le> i \<and> i < l \<longrightarrow> dle (a2 ! nat i) (a2 ! nat l)) \<and>
       (\<forall>i. l < i \<and> i \<le> R \<longrightarrow> dle (a2 ! nat l) (a2 ! nat i))"
    by blast
  from qp(1) obtain a1 where
    a1: "part_loop arr R (L - 1) R = Some (a1, l)" "swap_elems a1 l R = Some a2"
    by (auto simp: qs_partition_def split: option.splits)
  from part_loop_spec [of "L - 1" R R arr] assms LR a1(1)
  have "\<forall>i. 0 \<le> i \<and> i < int (length arr) \<and> (i \<le> L - 1 \<or> R \<le> i) \<longrightarrow>
           a1 ! nat i = arr ! nat i"
    by auto
  then have pR: "a1 ! nat R = arr ! nat R" using assms LR by auto
  have so: "same_outside a2 arr L R" using qp(6) by (simp add: same_outside_def)
  have ms: "mset (slice a2 L R) = mset (slice arr L R)"
    by (rule mset_slice_eq [OF qp(4,5) so assms(1)]) (use LR in simp)
  have rec: "rc_sort arr L R =
      (case rc_sort a2 L (l - 1) of None \<Rightarrow> None | Some a3 \<Rightarrow> rc_sort a3 (l + 1) R)"
    using rc_sort.simps [of arr L R] assms(2) qp(1) by simp
  have ord: "(\<forall>x\<in>set (slice a2 L (l - 1)). dle x (a2 ! nat l)) \<and>
             (\<forall>x\<in>set (slice a2 (l + 1) R). dle (a2 ! nat l) x)"
    if nf: "\<forall>x\<in>set (slice arr L R). \<not> isnan x"
  proof -
    have "nanfree_on arr L R" using nf nanfree_on_slice [OF assms(1,3)] by simp
    with qp(8) have
      lo: "\<forall>i. L \<le> i \<and> i < l \<longrightarrow> dle (a2 ! nat i) (a2 ! nat l)" and
      hi: "\<forall>i. l < i \<and> i \<le> R \<longrightarrow> dle (a2 ! nat l) (a2 ! nat i)"
      by (auto simp: nanfree_on_def)
    have b1: "l - 1 < int (length a2)" and b2: "R < int (length a2)" and b3: "0 \<le> l + 1"
      using qp(2,3,4) assms by auto
    show ?thesis
      unfolding set_slice [OF assms(1) b1] set_slice [OF b3 b2] using lo hi by auto
  qed
  show ?thesis using a1 pR qp(1,2,3,7) ms rec ord by blast
qed

theorem qs_partition_pivot_witness:
  "(0::int) \<le> 0 \<and> 25 < (26::int) - 0 \<and> 26 < int (length w27) \<and>
   list_all (\<lambda>x. \<not> isnan x) (slice w27 0 26) \<and>
   qs_partition w27 0 26 = Some (w27_partitioned, 13) \<and> w27_partitioned ! 13 = TWO \<and>
   list_all (\<lambda>x. dle x TWO) (slice w27_partitioned 0 (13 - 1)) \<and>
   list_all (\<lambda>x. dle TWO x) (slice w27_partitioned (13 + 1) 26)"
proof -
  have ev: "qs_partition w27 0 26 = Some (w27_partitioned, 13)"
    by (simp add: w27_def w27_partitioned_def eval_partition)
  have nf: "\<forall>x\<in>set (slice w27 0 26). \<not> isnan x"
    by (simp add: w27_def slice_def const_cmp)
  have h: "(0::int) \<le> 0" "25 < (26::int) - 0" "26 < int (length w27)"
    by (simp_all add: w27_def)
  have p: "w27_partitioned ! nat 13 = TWO" by (simp add: w27_partitioned_def)
  from qs_partition_pivot [OF h] ev nf have
    "(\<forall>x\<in>set (slice w27_partitioned 0 (13 - 1)). dle x (w27_partitioned ! nat 13)) \<and>
     (\<forall>x\<in>set (slice w27_partitioned (13 + 1) 26). dle (w27_partitioned ! nat 13) x)"
    by auto
  then have "list_all (\<lambda>x. dle x TWO) (slice w27_partitioned 0 (13 - 1)) \<and>
     list_all (\<lambda>x. dle TWO x) (slice w27_partitioned (13 + 1) 26)"
    unfolding p by (simp add: list_all_iff)
  with ev h nf p show ?thesis by (simp add: list_all_iff)
qed

text \<open>
  C8 as stated fails at the ends of the \<^verbatim>\<open>int\<close> range: with \<open>L = INT_MAX\<close> the
  insertion branch computes \<^verbatim>\<open>l = L + 1\<close> (line 42), and with \<open>L = 1\<close>, \<open>R = INT_MIN\<close>
  line 21 computes \<open>R - L\<close>; both overflow, which is undefined behaviour. The third
  input is the empty range to the right of a pivot that lands on the last index of an
  array of \<open>INT_MAX\<close> elements.
\<close>

theorem rc_sort_int_overflow_counterexample:
  "(0::int) < 2147483647 \<and> int_ok 2147483647 \<and> int_ok 0 \<and>
   rc_sort_int [ONE, TWO] 2147483647 0 = Inl SignedOverflow \<and>
   (-2147483648::int) < 1 \<and> int_ok (-2147483648) \<and> int_ok 1 \<and>
   rc_sort_int [ONE, TWO] 1 (-2147483648) = Inl SignedOverflow \<and>
   (2147483646::int) < 2147483647 \<and> int_ok 2147483646 \<and>
   rc_sort_int [ONE, TWO] 2147483647 2147483646 = Inl SignedOverflow"
  by (simp add: rc_sort_int.simps ck_def int_ok_def INT_MIN_def INT_MAX_def)

text \<open>
  C8, amended. For every array and all \<^verbatim>\<open>int\<close> indices with \<open>L > R\<close> for which \<open>R - L\<close>
  and \<open>L + 1\<close> are representable (as they are whenever \<open>0 \<le> L < INT_MAX\<close> and
  \<open>R \<ge> -1\<close>, which covers the empty sub-ranges of the recursion in arrays of fewer
  than \<open>INT_MAX\<close> elements), \<open>rc_sort\<close> returns with the array unchanged and touches no
  element. The statement holds for every array, the empty one and those too short to have
  an index \<open>L\<close> or \<open>R\<close> included: an access anywhere would be outside one of them
  and give \<open>OutOfBounds\<close>.
\<close>

theorem rc_sort_int_empty_range_noop:
  assumes "R < L" "int_ok L" "int_ok R" "int_ok (R - L)" "int_ok (L + 1)"
  shows "rc_sort_int arr L R = Inr arr"
  using assms
  by (simp add: rc_sort_int.simps [of arr L R] ins_loop_c.simps [of arr L R "L + 1"] ck_def)

theorem rc_sort_int_empty_range_noop_witness:
  "(2::int) < 5 \<and> int_ok 5 \<and> int_ok 2 \<and> int_ok (2 - 5) \<and> int_ok (5 + 1) \<and>
   rc_sort_int [] 5 2 = Inr [] \<and>
   (-1::int) < 0 \<and> int_ok 0 \<and> int_ok (-1) \<and> int_ok (-1 - 0) \<and> int_ok (0 + 1) \<and>
   rc_sort_int [ONE, TWO] 0 (-1) = Inr [ONE, TWO]"
proof -
  have h1: "(2::int) < 5" "int_ok 5" "int_ok 2" "int_ok (2 - 5)" "int_ok (5 + 1)"
    and h2: "(-1::int) < 0" "int_ok 0" "int_ok (-1)" "int_ok (-1 - 0)" "int_ok (0 + 1)"
    by (simp_all add: int_ok_def INT_MIN_def INT_MAX_def)
  from rc_sort_int_empty_range_noop [OF h1, of "[]"]
    rc_sort_int_empty_range_noop [OF h2, of "[ONE, TWO]"] h1 h2
  show ?thesis by simp
qed




text \<open>
  C10. On a platform with the guarantees of \<open>ieee_facts\<close>, for all non-NaN \<open>a\<close> and
  \<open>b\<close>: \<open>rc_logsumexp_pair(a, b) = rc_logsumexp_pair(b, a)\<close>, bit for bit. The guarantees
  are needed only when \<open>a\<close> and \<open>b\<close> are the two zeros.
\<close>

theorem pair_commutes:
  assumes "ieee_facts F" "\<not> isnan a" "\<not> isnan b"
  shows "rc_logsumexp_pair F a b = rc_logsumexp_pair F b a"
proof -
  consider (lt) "dlt a b" | (gt) "dlt b a" | (eq) "\<not> dlt a b" "\<not> dlt b a" by blast
  then show ?thesis
  proof cases
    case lt
    then have "\<not> dlt b a" "a \<noteq> b" by (auto simp: dlt_def)
    with lt show ?thesis by (auto simp: rc_logsumexp_pair_def deq_NEG_INF dgt_def)
  next
    case gt
    then have "\<not> dlt a b" "a \<noteq> b" by (auto simp: dlt_def)
    with gt show ?thesis by (auto simp: rc_logsumexp_pair_def deq_NEG_INF dgt_def)
  next
    case eq
    then have d: "deq a b" using assms(2,3) by (auto simp: dlt_def deq_def)
    from deq_cases [OF d] show ?thesis
    proof
      assume "a = b"
      then show ?thesis by simp
    next
      assume z: "is_zero a \<and> is_zero b"
      then have "a \<noteq> NEG_INF" "b \<noteq> NEG_INF" using zero_consts by auto
      then show ?thesis
        using eq z pair_of_zeros [OF assms(1), of a b] pair_of_zeros [OF assms(1), of b a]
        by (simp add: rc_logsumexp_pair_def deq_NEG_INF dgt_def)
    qed
  qed
qed

theorem pair_commutes_witness:
  "ieee_facts fpu_table \<and> \<not> isnan POS_ZERO \<and> \<not> isnan NEG_ZERO \<and>
   rc_logsumexp_pair fpu_table POS_ZERO NEG_ZERO = rc_logsumexp_pair fpu_table NEG_ZERO POS_ZERO \<and>
   \<not> isnan ONE \<and> \<not> isnan FIVE \<and>
   rc_logsumexp_pair fpu_table ONE FIVE = rc_logsumexp_pair fpu_table FIVE ONE"
  using pair_commutes [OF ieee_facts_table, of POS_ZERO NEG_ZERO]
    pair_commutes [OF ieee_facts_table, of ONE FIVE] ieee_facts_table
  by (simp add: const_cmp)

end
